theory Spec2Isabelle
  imports Complex_Main "HOL-Library.Log_Nat"
begin

section \<open>JavaScript strings and numbers\<close>

text \<open>
  A string is a list of characters, each one a UTF-16 code unit below 256. A number is a
  double: the values that occur here are \<open>NaN\<close>, the two infinities, and the doubles
  whose value is an integer. An integer up to \<open>2 ^ 53\<close> in absolute value is a double as
  it is; a larger one is rounded to the nearest double (to the even one of two that are
  equally near), and to an infinity from \<open>2 ^ 1024\<close> on.
\<close>

definition isWhiteSpace :: "char \<Rightarrow> bool" where
  \<comment> \<open>the characters that \<open>trim()\<close>, the regex class \<open>\\s\<close> and \<open>parseInt\<close> skip\<close>
  "isWhiteSpace c = (of_char c \<in> {9, 10, 11, 12, 13, 32, 160 :: nat})"

definition isDigit :: "char \<Rightarrow> bool" where
  \<comment> \<open>the regex class \<open>\\d\<close>\<close>
  "isDigit c = (48 \<le> (of_char c :: nat) \<and> (of_char c :: nat) \<le> 57)"

definition digitsValue :: "string \<Rightarrow> int" where
  \<comment> \<open>the value of a string of decimal digits\<close>
  "digitsValue ds = foldl (\<lambda>acc c. 10 * acc + (int (of_char c) - 48)) 0 ds"

definition trim :: "string \<Rightarrow> string" where
  "trim s = rev (dropWhile isWhiteSpace (rev (dropWhile isWhiteSpace s)))"

fun split_on :: "char \<Rightarrow> string \<Rightarrow> string list" where
  \<comment> \<open>\<open>s.split(c)\<close> for a one-character separator\<close>
  "split_on c [] = [[]]"
| "split_on c (x # xs) =
     (if x = c then [] # split_on c xs
      else (case split_on c xs of [] \<Rightarrow> [[x]] | p # ps \<Rightarrow> (x # p) # ps))"

datatype jsnum = NaN | Num int | PosInf | NegInf

definition roundToDouble :: "int \<Rightarrow> jsnum" where
  \<comment> \<open>the double nearest to an integer: 53 bits are kept, a tie goes to the even
      neighbour, and what reaches \<open>2 ^ 1024\<close> is an infinity\<close>
  "roundToDouble n =
     (let m = \<bar>n\<bar>
      in if m \<le> 2 ^ 53 then Num n
         else
           (let e = nat (bitlen m - 53);
                q = m div 2 ^ e;
                r = m mod 2 ^ e;
                half = 2 ^ (e - 1);
                q' = (if half < r \<or> (r = half \<and> odd q) then q + 1 else q);
                v = q' * 2 ^ e
            in if 2 ^ 1024 \<le> v then (if n < 0 then NegInf else PosInf)
               else Num (if n < 0 then - v else v)))"

fun num_le :: "jsnum \<Rightarrow> jsnum \<Rightarrow> bool" where
  \<comment> \<open>\<open>a <= b\<close>: false when either side is \<open>NaN\<close>\<close>
  "num_le NaN _ = False"
| "num_le _ NaN = False"
| "num_le (Num a) (Num b) = (a \<le> b)"
| "num_le NegInf _ = True"
| "num_le _ PosInf = True"
| "num_le PosInf _ = False"
| "num_le _ NegInf = False"

fun num_neg :: "jsnum \<Rightarrow> jsnum" where
  "num_neg NaN = NaN"
| "num_neg (Num a) = Num (- a)"
| "num_neg PosInf = NegInf"
| "num_neg NegInf = PosInf"

fun num_add :: "jsnum \<Rightarrow> jsnum \<Rightarrow> jsnum" where
  \<comment> \<open>\<open>a + b\<close>: the exact sum of two doubles, rounded to a double\<close>
  "num_add NaN _ = NaN"
| "num_add _ NaN = NaN"
| "num_add (Num a) (Num b) = roundToDouble (a + b)"
| "num_add PosInf NegInf = NaN"
| "num_add NegInf PosInf = NaN"
| "num_add PosInf _ = PosInf"
| "num_add NegInf _ = NegInf"
| "num_add _ PosInf = PosInf"
| "num_add _ NegInf = NegInf"

definition num_sub :: "jsnum \<Rightarrow> jsnum \<Rightarrow> jsnum" where
  \<comment> \<open>\<open>a - b\<close>\<close>
  "num_sub a b = num_add a (num_neg b)"

definition isHexDigit :: "char \<Rightarrow> bool" where
  "isHexDigit c = (isDigit c \<or> (65 \<le> (of_char c :: nat) \<and> (of_char c :: nat) \<le> 70)
     \<or> (97 \<le> (of_char c :: nat) \<and> (of_char c :: nat) \<le> 102))"

definition hexDigitValue :: "char \<Rightarrow> int" where
  "hexDigitValue c =
     (if isDigit c then int (of_char c) - 48
      else if (of_char c :: nat) \<le> 70 then int (of_char c) - 55
      else int (of_char c) - 87)"

definition hexValue :: "string \<Rightarrow> int" where
  "hexValue ds = foldl (\<lambda>acc c. 16 * acc + hexDigitValue c) 0 ds"

definition parseInt :: "string \<Rightarrow> jsnum" where
  \<comment> \<open>\<open>parseInt(s)\<close> with no radix: leading white space is skipped, a sign is read,
      a prefix \<open>0x\<close> or \<open>0X\<close> selects base 16, and the longest run of digits is
      read; no digit at all gives \<open>NaN\<close>. The result is the double of the integer read
      (the standard lets an engine drop decimal digits after the twentieth before it
      rounds; the engines in use round the integer as written).\<close>
  "parseInt s =
     (let s1 = dropWhile isWhiteSpace s;
          neg = (s1 \<noteq> [] \<and> hd s1 = CHR ''-'');
          s2 = (if s1 \<noteq> [] \<and> (hd s1 = CHR ''-'' \<or> hd s1 = CHR ''+'') then tl s1 else s1);
          hex = (take 2 s2 = ''0x'' \<or> take 2 s2 = ''0X'');
          s3 = (if hex then drop 2 s2 else s2);
          ds = (if hex then takeWhile isHexDigit s3 else takeWhile isDigit s3);
          v = (if hex then hexValue ds else digitsValue ds)
      in if ds = [] then NaN else roundToDouble (if neg then - v else v))"

definition parseInt10 :: "string \<Rightarrow> jsnum" where
  \<comment> \<open>\<open>parseInt(s, 10)\<close>\<close>
  "parseInt10 s =
     (let s1 = dropWhile isWhiteSpace s;
          neg = (s1 \<noteq> [] \<and> hd s1 = CHR ''-'');
          s2 = (if s1 \<noteq> [] \<and> (hd s1 = CHR ''-'' \<or> hd s1 = CHR ''+'') then tl s1 else s1);
          ds = takeWhile isDigit s2
      in if ds = [] then NaN
         else roundToDouble (if neg then - digitsValue ds else digitsValue ds))"

section \<open>Circuit identifiers (shared schema helpers)\<close>

datatype error =
    InvalidCircuitIdFormat string
  | InvalidCircuitIdRangeFormat string

definition matchRange :: "string \<Rightarrow> (string \<times> string) option" where
  \<comment> \<open>the regex \<open>^(\\d+)-(\\d+)$\<close>: both groups are greedy and \<open>-\<close> is no digit, so the
      first group is the leading run of digits\<close>
  "matchRange s =
     (let a = takeWhile isDigit s; r = dropWhile isDigit s
      in if a \<noteq> [] \<and> r \<noteq> [] \<and> hd r = CHR ''-'' \<and> tl r \<noteq> [] \<and> list_all isDigit (tl r)
         then Some (a, tl r) else None)"

fun searchRange :: "string \<Rightarrow> (string \<times> string) option" where
  \<comment> \<open>the regex \<open>(\\d+)-(\\d+)$\<close>, not anchored at the start: the engine tries each
      start position from the left and returns the first match\<close>
  "searchRange [] = matchRange []"
| "searchRange (x # xs) =
     (case matchRange (x # xs) of Some m \<Rightarrow> Some m | None \<Rightarrow> searchRange xs)"

definition parseCircuitId :: "string \<Rightarrow> error + jsnum" where
  "parseCircuitId circuitId =
     (case searchRange circuitId of
        None \<Rightarrow> Inl (InvalidCircuitIdFormat circuitId)
      | Some (m1, m2) \<Rightarrow>
          (let start = parseInt10 m1; end = parseInt10 m2
           in Inr (num_add (num_sub end start) (Num 1))))"

record circuit_id_parts =
  prefix :: string
  rangeStart :: jsnum
  rangeEnd :: jsnum

definition parseCircuitIdParts :: "string \<Rightarrow> error + circuit_id_parts" where
  "parseCircuitIdParts circuitId =
     (let parts = split_on CHR '','' circuitId
      in if length parts \<noteq> 2 then Inl (InvalidCircuitIdFormat circuitId)
         else (case matchRange (trim (parts ! 1)) of
                 None \<Rightarrow> Inl (InvalidCircuitIdRangeFormat circuitId)
               | Some (m1, m2) \<Rightarrow>
                   Inr \<lparr>prefix = trim (parts ! 0),
                        rangeStart = parseInt10 m1,
                        rangeEnd = parseInt10 m2\<rparr>))"

definition circuitIdsOverlap :: "string \<Rightarrow> string \<Rightarrow> bool" where
  \<comment> \<open>the \<open>try\<close> block: a parse failure on either side is caught and gives \<open>false\<close>\<close>
  "circuitIdsOverlap circuitId1 circuitId2 =
     (case parseCircuitIdParts circuitId1 of
        Inl _ \<Rightarrow> False
      | Inr parts1 \<Rightarrow>
          (case parseCircuitIdParts circuitId2 of
             Inl _ \<Rightarrow> False
           | Inr parts2 \<Rightarrow>
               if prefix parts1 \<noteq> prefix parts2 then False
               else num_le (rangeStart parts1) (rangeEnd parts2)
                  \<and> num_le (rangeStart parts2) (rangeEnd parts1)))"

section \<open>Normalising a circuit identifier\<close>

function splitWs :: "string \<Rightarrow> string list" where
  \<comment> \<open>\<open>s.split(/\\s+/)\<close>: the pieces between maximal runs of white space\<close>
  "splitWs s =
     (case dropWhile (\<lambda>c. \<not> isWhiteSpace c) s of
        [] \<Rightarrow> [s]
      | w # rest \<Rightarrow> takeWhile (\<lambda>c. \<not> isWhiteSpace c) s # splitWs (dropWhile isWhiteSpace rest))"
  by pat_completeness auto
termination
proof (relation "measure length")
  show "wf (measure length)" by simp
next
  fix s :: string and w rest
  assume d: "dropWhile (\<lambda>c. \<not> isWhiteSpace c) s = w # rest"
  have "length (dropWhile isWhiteSpace rest) \<le> length rest"
    by (rule length_dropWhile_le)
  also have "length rest < length (w # rest)" by simp
  also have "length (w # rest) \<le> length s"
    unfolding d[symmetric] by (rule length_dropWhile_le)
  finally show "(dropWhile isWhiteSpace rest, s) \<in> measure length" by simp
qed

declare splitWs.simps [simp del]

definition normalizeCircuitId :: "string \<Rightarrow> string" where
  "normalizeCircuitId input =
     (let trimmed = trim input
      in if CHR '','' \<in> set trimmed then trimmed
         else
           (let parts = splitWs trimmed
            in if length parts < 3 then trimmed
               else
                 (let rangeEnd = parts ! (length parts - 1);
                      rangeStart = parts ! (length parts - 2);
                      prefix = concat (take (length parts - 2) parts)
                  in prefix @ '','' @ rangeStart @ ''-'' @ rangeEnd)))"

section \<open>Binders\<close>

definition jsRem :: "int \<Rightarrow> int \<Rightarrow> int" where
  \<comment> \<open>the operator \<open>%\<close> on integers, for a divisor other than 0: the remainder takes the
      sign of the dividend\<close>
  "jsRem a b = sgn a * (\<bar>a\<bar> mod \<bar>b\<bar>)"

definition getBinderNumber :: "int \<Rightarrow> int \<Rightarrow> int" where
  \<comment> \<open>\<open>Math.ceil(pairNumber / binderSize)\<close>, for a binder size other than 0\<close>
  "getBinderNumber pairNumber binderSize = \<lceil>real_of_int pairNumber / real_of_int binderSize\<rceil>"

definition getPairPositionInBinder :: "int \<Rightarrow> int \<Rightarrow> int" where
  \<comment> \<open>the schema helper: the position counted from 0\<close>
  "getPairPositionInBinder pairNumber binderSize = jsRem (pairNumber - 1) binderSize"

datatype display_part =
    BinderPairs int int int   \<comment> \<open>binder, first and last pair in the binder: \<open>B2 : 1 - 5\<close>\<close>
  | BinderSpan int int        \<comment> \<open>first and last binder: \<open>B1 - B2\<close>\<close>

definition getBinderAndPairDisplay :: "int \<Rightarrow> int \<Rightarrow> int \<Rightarrow> display_part list" where
  "getBinderAndPairDisplay pairStart pairEnd binderSize =
     (let startBinder = getBinderNumber pairStart binderSize;
          endBinder = getBinderNumber pairEnd binderSize;
          startPairInBinder = jsRem (pairStart - 1) binderSize + 1;
          endPairInBinder = jsRem (pairEnd - 1) binderSize + 1
      in if startBinder = endBinder
         then [BinderPairs startBinder startPairInBinder endPairInBinder]
         else
           (let startsWithPartialBinder = (startPairInBinder \<noteq> 1);
                endsWithPartialBinder = (endPairInBinder \<noteq> binderSize)
            in if \<not> startsWithPartialBinder \<and> \<not> endsWithPartialBinder
               then [BinderSpan startBinder endBinder]
               else
                 (let firstFullBinder = (if startsWithPartialBinder then startBinder + 1 else startBinder);
                      lastFullBinder = (if endsWithPartialBinder then endBinder - 1 else endBinder)
                  in (if startsWithPartialBinder
                      then [BinderPairs startBinder startPairInBinder binderSize] else [])
                   @ (if firstFullBinder \<le> lastFullBinder
                      then map (\<lambda>r. BinderPairs r 1 binderSize) [firstFullBinder..lastFullBinder]
                      else [])
                   @ (if endsWithPartialBinder
                      then [BinderPairs endBinder 1 endPairInBinder] else []))))"

section \<open>Cables and circuits\<close>

text \<open>
  The rows of the two tables. Their numeric columns are integer columns of the database,
  whose values the component reads as numbers without loss.
\<close>

record cable =
  id_cable :: string
  name_cable :: string
  fiberCount :: int
  ribbonSize :: int
  type_cable :: string

record circuit =
  id_circuit :: string
  cableId :: string
  circuitId :: string
  position :: int
  fiberStart :: int
  fiberEnd :: int
  isSpliced :: int
  feedCableId :: "string option"
  feedFiberStart :: "int option"
  feedFiberEnd :: "int option"

section \<open>The circuit management component\<close>

datatype direction = Up | Down

datatype mutation =
    ToggleSpliced string "string option" "jsnum option" "jsnum option"
      \<comment> \<open>circuit, feed cable, first and last feed pair\<close>
  | CreateCircuit string string       \<comment> \<open>cable, circuit identifier\<close>
  | UpdateCircuitId string string     \<comment> \<open>circuit, circuit identifier\<close>
  | DeleteCircuit string
  | MoveCircuit string direction

datatype validation_error =
    ExpectedPrefixRange       \<comment> \<open>Invalid circuit ID format. Expected format: "prefix,start-end"\<close>
  | ExpectedStartEnd          \<comment> \<open>Invalid range format. Expected format: "start-end"\<close>
  | RangeNotNumbers           \<comment> \<open>Range values must be numbers\<close>
  | OverlapsExisting string string   \<comment> \<open>the new identifier and the existing one it overlaps\<close>

datatype toast =
    InvalidFormatToast        \<comment> \<open>Invalid circuit ID format\<close>
  | InvalidRangeFormatToast   \<comment> \<open>Invalid circuit ID range format\<close>
  | NoMatchingFeedCircuit string jsnum jsnum
      \<comment> \<open>No matching Feed circuit found: the prefix and the range searched for\<close>
  | MissingCircuitId
  | CircuitIdRequired
  | InvalidCircuitId validation_error

definition feedMatches :: "cable list \<Rightarrow> string \<Rightarrow> jsnum \<Rightarrow> jsnum \<Rightarrow> circuit \<Rightarrow> bool" where
  \<comment> \<open>the callback given to \<open>allCircuits.find\<close>\<close>
  "feedMatches allCables distributionPrefix distStart distEnd c =
     (case find (\<lambda>cable. id_cable cable = cableId c) allCables of
        None \<Rightarrow> False
      | Some feedCable \<Rightarrow>
          if type_cable feedCable \<noteq> ''Feed'' then False
          else
            (let feedParts = split_on CHR '','' (circuitId c)
             in if length feedParts \<noteq> 2 then False
                else
                  (let feedPrefix = trim (feedParts ! 0)
                   in if feedPrefix \<noteq> distributionPrefix then False
                      else
                        (let feedRangeParts = split_on CHR ''-'' (trim (feedParts ! 1))
                         in if length feedRangeParts \<noteq> 2 then False
                            else
                              (let feedStart = parseInt (feedRangeParts ! 0);
                                   feedEnd = parseInt (feedRangeParts ! 1)
                               in num_le feedStart distStart \<and> num_le distEnd feedEnd)))))"

definition findMatchingFeedCircuit ::
  "cable list \<Rightarrow> circuit list \<Rightarrow> string \<Rightarrow> jsnum \<Rightarrow> jsnum \<Rightarrow> circuit option" where
  \<comment> \<open>\<open>allCircuits.find(...)\<close>, whose result the source names \<open>matchingFeedCircuit\<close>:
      the first circuit of the list that the callback accepts\<close>
  "findMatchingFeedCircuit allCables allCircuits distributionPrefix distStart distEnd =
     find (feedMatches allCables distributionPrefix distStart distEnd) allCircuits"

definition handleCheckboxChange ::
  "cable \<Rightarrow> cable list \<Rightarrow> circuit list \<Rightarrow> circuit \<Rightarrow> bool \<Rightarrow> toast + mutation" where
  "handleCheckboxChange cable allCables allCircuits circuit checked =
     (if type_cable cable = ''Distribution'' \<and> checked then
        (let distParts = split_on CHR '','' (circuitId circuit)
         in if length distParts \<noteq> 2 then Inl InvalidFormatToast
            else
              (let distributionPrefix = trim (distParts ! 0);
                   distRangeParts = split_on CHR ''-'' (trim (distParts ! 1))
               in if length distRangeParts \<noteq> 2 then Inl InvalidRangeFormatToast
                  else
                    (let distStart = parseInt (distRangeParts ! 0);
                         distEnd = parseInt (distRangeParts ! 1)
                     in case findMatchingFeedCircuit allCables allCircuits distributionPrefix
                               distStart distEnd of
                          None \<Rightarrow> Inl (NoMatchingFeedCircuit distributionPrefix distStart distEnd)
                        | Some matchingFeedCircuit \<Rightarrow>
                            (let feedCable = find (\<lambda>c. id_cable c = cableId matchingFeedCircuit)
                                               allCables;
                                 feedParts = split_on CHR '','' (circuitId matchingFeedCircuit);
                                 feedRangeParts = split_on CHR ''-'' (trim (feedParts ! 1));
                                 feedStart = parseInt (feedRangeParts ! 0);
                                 offsetFromFeedStart = num_sub distStart feedStart;
                                 offsetFromFeedEnd = num_sub distEnd feedStart;
                                 calculatedFeedPairStart =
                                   num_add (Num (fiberStart matchingFeedCircuit)) offsetFromFeedStart;
                                 calculatedFeedPairEnd =
                                   num_add (Num (fiberStart matchingFeedCircuit)) offsetFromFeedEnd
                             in Inr (ToggleSpliced (id_circuit circuit)
                                      (map_option id_cable feedCable)
                                      (Some calculatedFeedPairStart)
                                      (Some calculatedFeedPairEnd))))))
      else Inr (ToggleSpliced (id_circuit circuit) None None None))"

fun checkOverlap :: "string \<Rightarrow> string \<Rightarrow> jsnum \<Rightarrow> jsnum \<Rightarrow> string option \<Rightarrow> circuit list
    \<Rightarrow> validation_error + unit" where
  \<comment> \<open>the loop over the circuits of the cable in \<open>parseAndCheckCircuitId\<close>\<close>
  "checkOverlap newCircuitId newPrefix newStart newEnd excludeCircuitId [] = Inr ()"
| "checkOverlap newCircuitId newPrefix newStart newEnd excludeCircuitId (circuit # circuits) =
     (let continue = checkOverlap newCircuitId newPrefix newStart newEnd excludeCircuitId circuits
      in if (case excludeCircuitId of
               None \<Rightarrow> False
             | Some e \<Rightarrow> e \<noteq> [] \<and> id_circuit circuit = e) then continue
         else
           (let existingParts = split_on CHR '','' (circuitId circuit)
            in if length existingParts \<noteq> 2 then continue
               else
                 (let existingPrefix = trim (existingParts ! 0);
                      existingRange = trim (existingParts ! 1);
                      existingRangeParts = split_on CHR ''-'' existingRange
                  in if length existingRangeParts \<noteq> 2 then continue
                     else
                       (let existingStart = parseInt (existingRangeParts ! 0);
                            existingEnd = parseInt (existingRangeParts ! 1)
                        in if existingStart = NaN \<or> existingEnd = NaN then continue
                           else if newPrefix = existingPrefix
                                 \<and> num_le newStart existingEnd \<and> num_le existingStart newEnd
                           then Inl (OverlapsExisting newCircuitId (circuitId circuit))
                           else continue))))"

definition parseAndCheckCircuitId :: "circuit list \<Rightarrow> string \<Rightarrow> string option
    \<Rightarrow> validation_error + unit" where
  \<comment> \<open>the first argument is the component's list of the circuits of its cable\<close>
  "parseAndCheckCircuitId circuits newCircuitId excludeCircuitId =
     (let parts = split_on CHR '','' newCircuitId
      in if length parts \<noteq> 2 then Inl ExpectedPrefixRange
         else
           (let newPrefix = trim (parts ! 0);
                newRange = trim (parts ! 1);
                newRangeParts = split_on CHR ''-'' newRange
            in if length newRangeParts \<noteq> 2 then Inl ExpectedStartEnd
               else
                 (let newStart = parseInt (newRangeParts ! 0);
                      newEnd = parseInt (newRangeParts ! 1)
                  in if newStart = NaN \<or> newEnd = NaN then Inl RangeNotNumbers
                     else checkOverlap newCircuitId newPrefix newStart newEnd
                            excludeCircuitId circuits)))"

definition handleSaveEdit :: "circuit list \<Rightarrow> string \<Rightarrow> string \<Rightarrow> toast + mutation" where
  \<comment> \<open>the second argument is the text of the edit field, the third (\<open>circuitId\<close> in the
      source) the circuit edited\<close>
  "handleSaveEdit circuits editingCircuitValue circuitId' =
     (if trim editingCircuitValue = [] then Inl CircuitIdRequired
      else
        (case parseAndCheckCircuitId circuits (trim editingCircuitValue) (Some circuitId') of
           Inl err \<Rightarrow> Inl (InvalidCircuitId err)
         | Inr _ \<Rightarrow> Inr (UpdateCircuitId circuitId' editingCircuitValue)))"

definition handleAddCircuit :: "cable \<Rightarrow> circuit list \<Rightarrow> string \<Rightarrow> toast + mutation" where
  \<comment> \<open>the third argument is the text of the input field (the state \<open>circuitId\<close>)\<close>
  "handleAddCircuit cable circuits circuitId' =
     (if trim circuitId' = [] then Inl MissingCircuitId
      else
        (case parseAndCheckCircuitId circuits (trim circuitId') None of
           Inl err \<Rightarrow> Inl (InvalidCircuitId err)
         | Inr _ \<Rightarrow> Inr (CreateCircuit (id_cable cable) (trim circuitId'))))"

definition mutate :: "(mutation \<Rightarrow> 's \<Rightarrow> 'e + 's) \<Rightarrow> toast + mutation \<Rightarrow> 's \<Rightarrow> 's" where
  \<comment> \<open>what a handler does to the stored data: nothing when it ends on a toast, and
      otherwise what the request it sends does, a request that fails changing nothing\<close>
  "mutate api r store =
     (case r of
        Inl t \<Rightarrow> store
      | Inr m \<Rightarrow> (case api m store of Inl e \<Rightarrow> store | Inr store' \<Rightarrow> store'))"

section \<open>Notions used to state the properties\<close>

definition trailingDigits :: "string \<Rightarrow> string" where
  \<comment> \<open>the run of digits a string ends with\<close>
  "trailingDigits u = rev (takeWhile isDigit (rev u))"

fun joinSpaces :: "string list \<Rightarrow> string" where
  \<comment> \<open>tokens written with one space between them\<close>
  "joinSpaces [] = []"
| "joinSpaces [t] = t"
| "joinSpaces (t # u # ts) = t @ CHR '' '' # joinSpaces (u # ts)"

definition isToken :: "string \<Rightarrow> bool" where
  \<comment> \<open>a token of the legacy form: not empty, no white space, no comma\<close>
  "isToken t = (t \<noteq> [] \<and> list_all (\<lambda>c. \<not> isWhiteSpace c \<and> c \<noteq> CHR '','') t)"

definition positionInBinder :: "int \<Rightarrow> int \<Rightarrow> int" where
  \<comment> \<open>the position of a pair in its binder, counted from 1\<close>
  "positionInBinder pair binderSize = ((pair - 1) mod binderSize) + 1"

definition binderSegments :: "int \<Rightarrow> int \<Rightarrow> int \<Rightarrow> display_part list" where
  \<comment> \<open>one segment for each binder that the range touches, in order: the first starts at
      the position of \<open>pairStart\<close>, the last ends at the position of \<open>pairEnd\<close>, and every
      other boundary is a binder boundary\<close>
  "binderSegments pairStart pairEnd binderSize =
     map (\<lambda>b. BinderPairs b
            (if b = getBinderNumber pairStart binderSize
             then positionInBinder pairStart binderSize else 1)
            (if b = getBinderNumber pairEnd binderSize
             then positionInBinder pairEnd binderSize else binderSize))
       [getBinderNumber pairStart binderSize .. getBinderNumber pairEnd binderSize]"

fun pairsOf :: "int \<Rightarrow> display_part \<Rightarrow> int list" where
  \<comment> \<open>the pairs that a part of the display stands for\<close>
  "pairsOf binderSize (BinderPairs b s e) = [(b - 1) * binderSize + s .. (b - 1) * binderSize + e]"
| "pairsOf binderSize (BinderSpan b1 b2) = [(b1 - 1) * binderSize + 1 .. b2 * binderSize]"

definition hasRoleFeed :: "cable list \<Rightarrow> circuit \<Rightarrow> bool" where
  \<comment> \<open>the cable that owns the circuit exists and has the role Feed\<close>
  "hasRoleFeed allCables c =
     (case find (\<lambda>cable. id_cable cable = cableId c) allCables of
        None \<Rightarrow> False
      | Some feedCable \<Rightarrow> type_cable feedCable = ''Feed'')"

definition qualifies :: "cable list \<Rightarrow> circuit_id_parts \<Rightarrow> circuit \<Rightarrow> bool" where
  \<comment> \<open>the feed circuits that the specification lets a distribution circuit with the
      parsed identifier \<open>dp\<close> match: role Feed, same prefix, range of \<open>dp\<close> contained\<close>
  "qualifies allCables dp f =
     (hasRoleFeed allCables f \<and>
      (case parseCircuitIdParts (circuitId f) of
         Inl _ \<Rightarrow> False
       | Inr fp \<Rightarrow> prefix fp = prefix dp
           \<and> num_le (rangeStart fp) (rangeStart dp) \<and> num_le (rangeEnd dp) (rangeEnd fp)))"

definition exampleCable :: "string \<Rightarrow> string \<Rightarrow> cable" where
  "exampleCable i t =
     \<lparr>id_cable = i, name_cable = i, fiberCount = 25, ribbonSize = 25, type_cable = t\<rparr>"

definition exampleCircuit :: "string \<Rightarrow> string \<Rightarrow> string \<Rightarrow> int \<Rightarrow> int \<Rightarrow> circuit" where
  \<comment> \<open>an unspliced circuit: its id, its cable, its identifier and its pair range\<close>
  "exampleCircuit i cab ident s e =
     \<lparr>id_circuit = i, cableId = cab, circuitId = ident, position = 0, fiberStart = s,
      fiberEnd = e, isSpliced = 0, feedCableId = None, feedFiberStart = None,
      feedFiberEnd = None\<rparr>"

definition trimLeft :: "string \<Rightarrow> string" where
  \<comment> \<open>the two halves of \<open>trim\<close>\<close>
  "trimLeft s = dropWhile isWhiteSpace s"

definition trimRight :: "string \<Rightarrow> string" where
  "trimRight s = rev (dropWhile isWhiteSpace (rev s))"

fun pairwiseNonOverlapping :: "string list \<Rightarrow> bool" where
  \<comment> \<open>no two identifiers of the list overlap\<close>
  "pairwiseNonOverlapping [] = True"
| "pairwiseNonOverlapping (x # xs) =
     (list_all (\<lambda>y. \<not> circuitIdsOverlap x y) xs \<and> pairwiseNonOverlapping xs)"

section \<open>The store behind the component\<close>

text \<open>
  The component sends its requests to a store that is not among the sources at hand. The
  definitions of this section follow the specification: the parse of an identifier and its
  pair count (section 4.1), the position allocator and the operations that run it (sections
  4.2 and 7), and the toggle of a splice with its conflict detector (sections 4.4 and 4.5).
  The state is the list of circuits in the order of their positions; for the allocator it
  is the list of the circuits of one cable.
\<close>

datatype store_error =
    FormatError string          \<comment> \<open>the identifier has no pair count\<close>
  | FeedPairConflict circuit    \<comment> \<open>the circuit whose feed pairs the request collides with\<close>
  | CircuitNotFound string

definition parseIdentifier :: "string \<Rightarrow> store_error + string \<times> int \<times> int" where
  \<comment> \<open>Modelled from the spec: \<open>parse(id)\<close> of section 4.1, as the store whose source is
      missing runs it. It fails with the format error when the normalised identifier is not
      two parts around one comma, when the range part is not digits, a hyphen and digits,
      and when start is above end; otherwise it gives the trimmed prefix and the integers
      start and end.\<close>
  "parseIdentifier ident =
     (let parts = split_on CHR '','' (normalizeCircuitId ident)
      in if length parts \<noteq> 2 then Inl (FormatError ident)
         else
           (case matchRange (trim (parts ! 1)) of
              None \<Rightarrow> Inl (FormatError ident)
            | Some (m1, m2) \<Rightarrow>
                if digitsValue m1 > digitsValue m2 then Inl (FormatError ident)
                else Inr (trim (parts ! 0), digitsValue m1, digitsValue m2)))"

definition pairCount :: "string \<Rightarrow> store_error + int" where
  \<comment> \<open>Modelled from the spec: \<open>pairCount(id)\<close> of section 4.1, equal to end - start + 1 of
      the parsed identifier; the store that computes it is missing from the sources.\<close>
  "pairCount ident =
     (case parseIdentifier ident of
        Inl e \<Rightarrow> Inl e
      | Inr (p, start, end) \<Rightarrow> Inr (end - start + 1))"

fun allocate :: "int \<Rightarrow> circuit list \<Rightarrow> store_error + circuit list" where
  \<comment> \<open>Modelled from the spec: the walk of the position allocator, whose source is missing.
      Each circuit starts at the next free pair and spans as many pairs as its identifier
      counts; the next circuit starts immediately after its last pair.\<close>
  "allocate next [] = Inr []"
| "allocate next (c # cs) =
     (case pairCount (circuitId c) of
        Inl e \<Rightarrow> Inl e
      | Inr n \<Rightarrow>
          (case allocate (next + n) cs of
             Inl e \<Rightarrow> Inl e
           | Inr cs' \<Rightarrow> Inr (c\<lparr>fiberStart := next, fiberEnd := next + n - 1\<rparr> # cs')))"

definition positionAllocator :: "circuit list \<Rightarrow> store_error + circuit list" where
  \<comment> \<open>Modelled from the spec: the position allocator, whose source is missing. It takes the
      circuits of a cable in the order of their positions; the first circuit starts at
      pair 1.\<close>
  "positionAllocator cs = allocate 1 cs"

fun indexOfCircuit :: "string \<Rightarrow> circuit list \<Rightarrow> nat option" where
  \<comment> \<open>Modelled from the spec: the lookup of a circuit by its id in the store, whose source
      is missing; the index of the first circuit with the given id.\<close>
  "indexOfCircuit cid [] = None"
| "indexOfCircuit cid (c # cs) =
     (if id_circuit c = cid then Some 0 else map_option Suc (indexOfCircuit cid cs))"

definition createCircuit :: "string \<Rightarrow> string \<Rightarrow> string \<Rightarrow> circuit list
    \<Rightarrow> store_error + circuit list" where
  \<comment> \<open>Modelled from the spec: circuit insertion, whose source is missing. The new circuit,
      with the id \<open>newId\<close> chosen by the store, is appended at the end with the position
      \<open>count\<close>, and the allocator runs; a failure leaves nothing changed.\<close>
  "createCircuit newId cable ident cs =
     positionAllocator
       (cs @ [\<lparr>id_circuit = newId, cableId = cable, circuitId = ident,
               position = int (length cs), fiberStart = 0, fiberEnd = 0, isSpliced = 0,
               feedCableId = None, feedFiberStart = None, feedFiberEnd = None\<rparr>])"

definition deleteCircuit :: "string \<Rightarrow> circuit list \<Rightarrow> store_error + circuit list" where
  \<comment> \<open>Modelled from the spec: circuit deletion, whose source is missing. The circuits with
      a greater position shift down by one, and the allocator runs.\<close>
  "deleteCircuit cid cs =
     (case indexOfCircuit cid cs of
        None \<Rightarrow> Inl (CircuitNotFound cid)
      | Some k \<Rightarrow>
          positionAllocator
            (map (\<lambda>c. if position c > position (cs ! k)
                       then c\<lparr>position := position c - 1\<rparr> else c)
               (take k cs @ drop (Suc k) cs)))"

definition swapWithNext :: "nat \<Rightarrow> circuit list \<Rightarrow> circuit list" where
  \<comment> \<open>Modelled from the spec: the exchange of positions in a circuit move, whose source is
      missing. The circuits at the indices \<open>k\<close> and \<open>k + 1\<close> exchange their positions, and
      the list stays in the order of the positions.\<close>
  "swapWithNext k cs =
     cs[k := (cs ! Suc k)\<lparr>position := position (cs ! k)\<rparr>,
        Suc k := (cs ! k)\<lparr>position := position (cs ! Suc k)\<rparr>]"

definition moveCircuit :: "string \<Rightarrow> direction \<Rightarrow> circuit list \<Rightarrow> store_error + circuit list" where
  \<comment> \<open>Modelled from the spec: circuit move, whose source is missing. The circuit exchanges
      its position with the adjacent circuit in the direction asked for, and the allocator
      runs; a move of the first circuit up or of the last circuit down changes nothing.\<close>
  "moveCircuit cid dir cs =
     (case indexOfCircuit cid cs of
        None \<Rightarrow> Inl (CircuitNotFound cid)
      | Some k \<Rightarrow>
          (case dir of
             Up \<Rightarrow> if k = 0 then Inr cs else positionAllocator (swapWithNext (k - 1) cs)
           | Down \<Rightarrow> if Suc k = length cs then Inr cs
                      else positionAllocator (swapWithNext k cs)))"

definition updateCircuitId :: "string \<Rightarrow> string \<Rightarrow> circuit list \<Rightarrow> store_error + circuit list" where
  \<comment> \<open>Modelled from the spec: identifier edit, whose source is missing. The circuit takes
      the new identifier and the allocator recomputes all circuits.\<close>
  "updateCircuitId cid ident cs =
     (case indexOfCircuit cid cs of
        None \<Rightarrow> Inl (CircuitNotFound cid)
      | Some k \<Rightarrow> positionAllocator (cs[k := (cs ! k)\<lparr>circuitId := ident\<rparr>]))"

definition feedPairsCollide :: "string \<Rightarrow> string \<Rightarrow> int \<Rightarrow> int \<Rightarrow> circuit \<Rightarrow> bool" where
  \<comment> \<open>Modelled from the spec: the test of the conflict detector, whose source is missing.
      Another circuit that references the same feed cable holds an assignment that
      intersects the candidate range from \<open>start\<close> to \<open>end\<close>.\<close>
  "feedPairsCollide cid feedCable start end c =
     (id_circuit c \<noteq> cid \<and> feedCableId c = Some feedCable \<and>
      (case (feedFiberStart c, feedFiberEnd c) of
         (Some existingStart, Some existingEnd) \<Rightarrow> start \<le> existingEnd \<and> existingStart \<le> end
       | _ \<Rightarrow> False))"

definition toggleSpliced :: "string \<Rightarrow> string option \<Rightarrow> jsnum option \<Rightarrow> jsnum option
    \<Rightarrow> circuit list \<Rightarrow> store_error + circuit list" where
  \<comment> \<open>Modelled from the spec: the splice toggle, whose source is missing. A request that
      carries a feed cable and a feed pair range is checked by the conflict detector and
      then stored on the circuit, which becomes spliced; a request that carries none clears
      the link. The state is the list of all circuits.\<close>
  "toggleSpliced cid feedCable feedStart feedEnd cs =
     (case (feedCable, feedStart, feedEnd) of
        (Some fc, Some (Num s), Some (Num e)) \<Rightarrow>
          (case find (feedPairsCollide cid fc s e) cs of
             Some c \<Rightarrow> Inl (FeedPairConflict c)
           | None \<Rightarrow>
               Inr (map (\<lambda>c. if id_circuit c = cid
                              then c\<lparr>isSpliced := 1, feedCableId := Some fc,
                                     feedFiberStart := Some s, feedFiberEnd := Some e\<rparr>
                              else c) cs))
      | _ \<Rightarrow>
          Inr (map (\<lambda>c. if id_circuit c = cid
                         then c\<lparr>isSpliced := 0, feedCableId := None,
                                feedFiberStart := None, feedFiberEnd := None\<rparr>
                         else c) cs))"

definition storeApi :: "string \<Rightarrow> mutation \<Rightarrow> circuit list \<Rightarrow> store_error + circuit list" where
  \<comment> \<open>Modelled from the spec: the routes of the store, whose source is missing; \<open>newId\<close> is
      the id that the store gives to a circuit it creates.\<close>
  "storeApi newId m cs =
     (case m of
        ToggleSpliced cid fc fs fe \<Rightarrow> toggleSpliced cid fc fs fe cs
      | CreateCircuit cable ident \<Rightarrow> createCircuit newId cable ident cs
      | UpdateCircuitId cid ident \<Rightarrow> updateCircuitId cid ident cs
      | DeleteCircuit cid \<Rightarrow> deleteCircuit cid cs
      | MoveCircuit cid dir \<Rightarrow> moveCircuit cid dir cs)"








section \<open>Numbers\<close>

lemma roundToDouble_exact: "\<bar>n\<bar> \<le> 2 ^ 53 \<Longrightarrow> roundToDouble n = Num n"
  by (simp add: roundToDouble_def)

lemma roundToDouble_not_NaN: "roundToDouble n \<noteq> NaN"
  by (simp add: roundToDouble_def Let_def)

lemma num_sub_exact: "\<bar>a - b\<bar> \<le> 2 ^ 53 \<Longrightarrow> num_sub (Num a) (Num b) = Num (a - b)"
  by (simp add: num_sub_def roundToDouble_exact)

lemma num_add_exact: "\<bar>a + b\<bar> \<le> 2 ^ 53 \<Longrightarrow> num_add (Num a) (Num b) = Num (a + b)"
  by (simp add: roundToDouble_exact)

lemma digitsValue_nonneg: "list_all isDigit ds \<Longrightarrow> 0 \<le> digitsValue ds"
proof -
  have "list_all isDigit ds \<Longrightarrow> 0 \<le> acc \<Longrightarrow>
      0 \<le> foldl (\<lambda>acc c. 10 * acc + (int (of_char c) - 48)) acc ds" for acc
    by (induction ds arbitrary: acc) (auto simp: isDigit_def)
  then show "list_all isDigit ds \<Longrightarrow> 0 \<le> digitsValue ds"
    unfolding digitsValue_def by simp
qed

section \<open>Digits and the range patterns\<close>

lemma dash_not_digit: "\<not> isDigit CHR ''-''"
  by (simp add: isDigit_def)

lemma digit_not_space: "isDigit c \<Longrightarrow> \<not> isWhiteSpace c"
  by (auto simp: isDigit_def isWhiteSpace_def)

lemma digit_not_sign: "isDigit c \<Longrightarrow> c \<noteq> CHR ''-'' \<and> c \<noteq> CHR ''+''"
  by (auto simp: isDigit_def)

lemma takeWhile_all: "list_all P xs \<Longrightarrow> takeWhile P (xs @ ys) = xs @ takeWhile P ys"
  by (induction xs) auto

lemma takeWhile_id: "list_all P xs \<Longrightarrow> takeWhile P xs = xs"
  by (induction xs) auto

lemma dropWhile_all: "list_all P xs \<Longrightarrow> dropWhile P (xs @ ys) = dropWhile P ys"
  by (induction xs) auto

lemma matchRange_Some_iff:
  "matchRange s = Some (a, b) \<longleftrightarrow>
     s = a @ CHR ''-'' # b \<and> a \<noteq> [] \<and> b \<noteq> [] \<and> list_all isDigit a \<and> list_all isDigit b"
proof
  assume m: "matchRange s = Some (a, b)"
  let ?r = "dropWhile isDigit s"
  from m have a: "a = takeWhile isDigit s" and b: "b = tl ?r"
    and ne: "a \<noteq> []" "?r \<noteq> []" "hd ?r = CHR ''-''" "tl ?r \<noteq> []" "list_all isDigit (tl ?r)"
    by (auto simp: matchRange_def Let_def split: if_splits)
  have "s = takeWhile isDigit s @ ?r" by simp
  also have "?r = CHR ''-'' # tl ?r" using ne(2,3) by (cases ?r) auto
  finally have "s = a @ CHR ''-'' # b" using a b by simp
  moreover have "list_all isDigit a" using a by (simp add: list_all_iff) (meson set_takeWhileD)
  ultimately show "s = a @ CHR ''-'' # b \<and> a \<noteq> [] \<and> b \<noteq> [] \<and> list_all isDigit a \<and> list_all isDigit b"
    using ne b by simp
next
  assume "s = a @ CHR ''-'' # b \<and> a \<noteq> [] \<and> b \<noteq> [] \<and> list_all isDigit a \<and> list_all isDigit b"
  then show "matchRange s = Some (a, b)"
    by (simp add: matchRange_def Let_def takeWhile_all dropWhile_all dash_not_digit)
qed

lemma parseInt10_digits:
  assumes "ds \<noteq> []" "list_all isDigit ds"
  shows "parseInt10 ds = roundToDouble (digitsValue ds)"
proof -
  from assms obtain d ds' where ds: "ds = d # ds'" and d: "isDigit d" by (cases ds) auto
  have dw: "dropWhile isWhiteSpace ds = ds" using ds d digit_not_space by simp
  have tw: "takeWhile isDigit ds = ds" using assms(2) by (rule takeWhile_id)
  have hd: "hd ds \<noteq> CHR ''-''" "hd ds \<noteq> CHR ''+''" using ds digit_not_sign[OF d] by auto
  show ?thesis using hd assms(1) by (simp add: parseInt10_def Let_def dw tw)
qed

lemma trailingDigits_all: "list_all isDigit u \<Longrightarrow> trailingDigits u = u"
  by (simp add: trailingDigits_def takeWhile_id list_all_iff)

lemma trailingDigits_Cons:
  "\<not> list_all isDigit (x # u) \<Longrightarrow> trailingDigits (x # u) = trailingDigits u"
proof (cases "list_all isDigit u")
  case True
  assume "\<not> list_all isDigit (x # u)"
  with True have "\<not> isDigit x" by simp
  then show ?thesis using True
    by (simp add: trailingDigits_def list_all_iff takeWhile_all takeWhile_id)
next
  case False
  then obtain y where "y \<in> set (rev u)" "\<not> isDigit y" by (auto simp: list_all_iff)
  then show ?thesis by (simp add: trailingDigits_def takeWhile_append1)
qed

lemma trailingDigits_digits:
  assumes "u \<noteq> []" "isDigit (last u)"
  shows "trailingDigits u \<noteq> []" and "list_all isDigit (trailingDigits u)"
proof -
  obtain y ys where r: "rev u = y # ys" using assms(1) by (cases "rev u") auto
  have "hd (rev u) = last u" using assms(1) by (simp add: hd_rev)
  then have "isDigit y" using r assms(2) by simp
  then show "trailingDigits u \<noteq> []" by (simp add: trailingDigits_def r)
  show "list_all isDigit (trailingDigits u)"
    unfolding trailingDigits_def list_all_iff using set_takeWhileD by fastforce
qed

lemma matchRange_None_nondigit:
  assumes "\<not> list_all isDigit u" "list_all isDigit b"
  shows "matchRange (u @ CHR ''-'' # b) = None"
proof (cases "matchRange (u @ CHR ''-'' # b)")
  case None then show ?thesis .
next
  case (Some m)
  obtain a' b' where m: "m = (a', b')" by (cases m)
  from Some m have eq: "u @ CHR ''-'' # b = a' @ CHR ''-'' # b'"
    and d: "list_all isDigit a'" "list_all isDigit b'"
    by (simp_all add: matchRange_Some_iff)
  have "takeWhile isDigit (rev (u @ CHR ''-'' # b)) = rev b"
    using takeWhile_all[of isDigit "rev b" "CHR ''-'' # rev u"] assms(2)
    by (simp add: dash_not_digit list_all_iff)
  moreover have "takeWhile isDigit (rev (a' @ CHR ''-'' # b')) = rev b'"
    using takeWhile_all[of isDigit "rev b'" "CHR ''-'' # rev a'"] d(2)
    by (simp add: dash_not_digit list_all_iff)
  ultimately have "b = b'" using eq by (metis rev_rev_ident)
  with eq have "u = a'" by simp
  with d(1) assms(1) show ?thesis by simp
qed

lemma searchRange_trailing:
  "u \<noteq> [] \<Longrightarrow> isDigit (last u) \<Longrightarrow> b \<noteq> [] \<Longrightarrow> list_all isDigit b \<Longrightarrow>
   searchRange (u @ CHR ''-'' # b) = Some (trailingDigits u, b)"
proof (induction u)
  case Nil then show ?case by simp
next
  case (Cons x u)
  show ?case
  proof (cases "list_all isDigit (x # u)")
    case True
    then have "matchRange ((x # u) @ CHR ''-'' # b) = Some (x # u, b)"
      using Cons.prems by (simp add: matchRange_Some_iff)
    then show ?thesis using True trailingDigits_all[OF True] by simp
  next
    case False
    have none: "matchRange ((x # u) @ CHR ''-'' # b) = None"
      using matchRange_None_nondigit[OF False] Cons.prems by blast
    have "u \<noteq> []" using False Cons.prems(2) by auto
    then have "searchRange (u @ CHR ''-'' # b) = Some (trailingDigits u, b)"
      using Cons by simp
    then show ?thesis using none trailingDigits_Cons[OF False] by simp
  qed
qed

lemma searchRange_None:
  "\<not> (\<exists>u b. s = u @ CHR ''-'' # b \<and> u \<noteq> [] \<and> isDigit (last u) \<and> b \<noteq> [] \<and> list_all isDigit b)
   \<Longrightarrow> searchRange s = None"
proof (induction s)
  case Nil
  then show ?case by (simp add: matchRange_def)
next
  case (Cons x xs)
  have none: "matchRange (x # xs) = None"
  proof (cases "matchRange (x # xs)")
    case None then show ?thesis .
  next
    case (Some m)
    obtain a b where "m = (a, b)" by (cases m)
    with Some have "x # xs = a @ CHR ''-'' # b \<and> a \<noteq> [] \<and> b \<noteq> [] \<and> list_all isDigit a \<and> list_all isDigit b"
      by (simp add: matchRange_Some_iff)
    moreover from this have "isDigit (last a)" by (simp add: list_all_iff)
    ultimately show ?thesis using Cons.prems by blast
  qed
  have "\<not> (\<exists>u b. xs = u @ CHR ''-'' # b \<and> u \<noteq> [] \<and> isDigit (last u) \<and> b \<noteq> [] \<and> list_all isDigit b)"
  proof
    assume "\<exists>u b. xs = u @ CHR ''-'' # b \<and> u \<noteq> [] \<and> isDigit (last u) \<and> b \<noteq> [] \<and> list_all isDigit b"
    then obtain u b where "xs = u @ CHR ''-'' # b" "u \<noteq> []" "isDigit (last u)" "b \<noteq> []" "list_all isDigit b"
      by blast
    then have "x # xs = (x # u) @ CHR ''-'' # b \<and> x # u \<noteq> [] \<and> isDigit (last (x # u)) \<and> b \<noteq> [] \<and> list_all isDigit b"
      by simp
    then show False using Cons.prems by blast
  qed
  then have "searchRange xs = None" by (rule Cons.IH)
  then show ?case using none by simp
qed


section \<open>The pair count of an identifier\<close>

text \<open>
  C10. \<open>parseCircuitId\<close> looks only at the end of the string. When the string ends
  with digits, a hyphen and digits (\<open>u\<close> ends with a digit, \<open>b\<close> is a run of digits),
  it returns \<open>end - start + 1\<close> in the arithmetic of numbers, where start is the number
  read from the run of digits before the hyphen and end the one read after it; no comma and
  no prefix are needed, and the result is zero or negative when end is below start. For
  numbers below \<open>2 ^ 53\<close> this is the integer end - start + 1. In every other case, and
  only then, it throws the format error.
\<close>

theorem parseCircuitId_trailing_range:
  "(\<forall>u b. u \<noteq> [] \<and> isDigit (last u) \<and> b \<noteq> [] \<and> list_all isDigit b \<longrightarrow>
      parseCircuitId (u @ CHR ''-'' # b)
        = Inr (num_add
                 (num_sub (roundToDouble (digitsValue b))
                    (roundToDouble (digitsValue (trailingDigits u))))
                 (Num 1)))
   \<and> (\<forall>u b. u \<noteq> [] \<and> isDigit (last u) \<and> b \<noteq> [] \<and> list_all isDigit b
        \<and> digitsValue b < 2 ^ 53 \<and> digitsValue (trailingDigits u) < 2 ^ 53 \<longrightarrow>
      parseCircuitId (u @ CHR ''-'' # b)
        = Inr (Num (digitsValue b - digitsValue (trailingDigits u) + 1)))
   \<and> (\<forall>s. (\<exists>u b. s = u @ CHR ''-'' # b \<and> u \<noteq> [] \<and> isDigit (last u) \<and> b \<noteq> [] \<and> list_all isDigit b)
          \<or> parseCircuitId s = Inl (InvalidCircuitIdFormat s))
   \<and> parseCircuitId ''lg,33-36'' = Inr (Num 4)
   \<and> parseCircuitId ''b,5-4'' = Inr (Num 0)
   \<and> parseCircuitId ''b,5-1'' = Inr (Num (- 3))
   \<and> parseCircuitId ''33-36'' = Inr (Num 4)
   \<and> parseCircuitId ''lg,33-36 '' = Inl (InvalidCircuitIdFormat ''lg,33-36 '')
   \<and> parseCircuitId ''a,1-9007199254740993'' = Inr (Num 9007199254740992)"
proof (intro conjI allI impI)
  fix u b
  assume h: "u \<noteq> [] \<and> isDigit (last u) \<and> b \<noteq> [] \<and> list_all isDigit b"
  then have td: "trailingDigits u \<noteq> []" "list_all isDigit (trailingDigits u)"
    by (simp_all add: trailingDigits_digits)
  show "parseCircuitId (u @ CHR ''-'' # b)
        = Inr (num_add
                 (num_sub (roundToDouble (digitsValue b))
                    (roundToDouble (digitsValue (trailingDigits u))))
                 (Num 1))"
    using h td by (simp add: parseCircuitId_def searchRange_trailing parseInt10_digits)
next
  fix u b
  assume h: "u \<noteq> [] \<and> isDigit (last u) \<and> b \<noteq> [] \<and> list_all isDigit b
        \<and> digitsValue b < 2 ^ 53 \<and> digitsValue (trailingDigits u) < 2 ^ 53"
  then have td: "trailingDigits u \<noteq> []" "list_all isDigit (trailingDigits u)"
    by (simp_all add: trailingDigits_digits)
  let ?e = "digitsValue b" and ?s = "digitsValue (trailingDigits u)"
  have nn: "0 \<le> ?e" "0 \<le> ?s" using h td by (simp_all add: digitsValue_nonneg)
  have r: "roundToDouble ?e = Num ?e" "roundToDouble ?s = Num ?s"
    using h nn by (simp_all add: roundToDouble_exact)
  have b: "?e < 2 ^ 53" "?s < 2 ^ 53" using h by simp_all
  have "\<bar>?e - ?s\<bar> \<le> 2 ^ 53" using b nn by linarith
  then have d: "num_sub (Num ?e) (Num ?s) = Num (?e - ?s)"
    by (rule num_sub_exact)
  have "\<bar>?e - ?s + 1\<bar> \<le> 2 ^ 53" using b nn by linarith
  then have a: "num_add (Num (?e - ?s)) (Num 1) = Num (?e - ?s + 1)"
    by (rule num_add_exact)
  have "parseCircuitId (u @ CHR ''-'' # b)
      = Inr (num_add (num_sub (roundToDouble ?e) (roundToDouble ?s)) (Num 1))"
    using h td by (simp add: parseCircuitId_def searchRange_trailing parseInt10_digits)
  then show "parseCircuitId (u @ CHR ''-'' # b) = Inr (Num (?e - ?s + 1))"
    by (simp only: r d a)
next
  fix s
  show "(\<exists>u b. s = u @ CHR ''-'' # b \<and> u \<noteq> [] \<and> isDigit (last u) \<and> b \<noteq> [] \<and> list_all isDigit b)
          \<or> parseCircuitId s = Inl (InvalidCircuitIdFormat s)"
  proof (cases "\<exists>u b. s = u @ CHR ''-'' # b \<and> u \<noteq> [] \<and> isDigit (last u) \<and> b \<noteq> [] \<and> list_all isDigit b")
    case True then show ?thesis by blast
  next
    case False
    then have "searchRange s = None" by (rule searchRange_None)
    then show ?thesis by (simp add: parseCircuitId_def)
  qed
qed (code_simp+)

theorem parseCircuitId_trailing_range_witness:
  "''lg,33'' \<noteq> [] \<and> isDigit (last ''lg,33'') \<and> ''36'' \<noteq> [] \<and> list_all isDigit ''36''
   \<and> digitsValue ''36'' < 2 ^ 53 \<and> digitsValue (trailingDigits ''lg,33'') < 2 ^ 53
   \<and> parseCircuitId (''lg,33'' @ CHR ''-'' # ''36'')
       = Inr (num_add
                (num_sub (roundToDouble (digitsValue ''36''))
                   (roundToDouble (digitsValue (trailingDigits ''lg,33''))))
                (Num 1))
   \<and> parseCircuitId (''lg,33'' @ CHR ''-'' # ''36'')
       = Inr (Num (digitsValue ''36'' - digitsValue (trailingDigits ''lg,33'') + 1))"
proof -
  have h: "''lg,33'' \<noteq> [] \<and> isDigit (last ''lg,33'') \<and> ''36'' \<noteq> [] \<and> list_all isDigit ''36''"
    by (simp add: isDigit_def)
  have v: "digitsValue ''36'' = 36" "digitsValue (trailingDigits ''lg,33'') = 33" by code_simp+
  have b: "digitsValue ''36'' < 2 ^ 53 \<and> digitsValue (trailingDigits ''lg,33'') < 2 ^ 53"
    unfolding v by simp
  have h2: "''lg,33'' \<noteq> [] \<and> isDigit (last ''lg,33'') \<and> ''36'' \<noteq> [] \<and> list_all isDigit ''36''
      \<and> digitsValue ''36'' < 2 ^ 53 \<and> digitsValue (trailingDigits ''lg,33'') < 2 ^ 53"
    using h b by (intro conjI) simp_all
  note c1 = parseCircuitId_trailing_range[THEN conjunct1, THEN spec, THEN spec, THEN mp, OF h]
  note c2 = parseCircuitId_trailing_range[THEN conjunct2, THEN conjunct1, THEN spec, THEN spec,
      THEN mp, OF h2]
  from h b c1 c2 show ?thesis by (intro conjI) simp_all
qed

section \<open>Splitting and parsing identifiers\<close>

lemma split_on_nonempty: "split_on c s \<noteq> []"
  by (induction s) (auto split: list.splits)

lemma split_on_no_sep: "c \<notin> set s \<Longrightarrow> split_on c s = [s]"
  by (induction s) auto

lemma split_on_append: "c \<notin> set p \<Longrightarrow> split_on c (p @ c # r) = p # split_on c r"
  by (induction p) auto

lemma length_split_on: "length (split_on c s) = Suc (length (filter (\<lambda>x. x = c) s))"
  by (induction s) (auto split: list.splits simp: split_on_nonempty)

lemma split_on_two:
  assumes "length (split_on c s) = 2"
  shows "\<exists>p r. s = p @ c # r \<and> c \<notin> set p \<and> c \<notin> set r \<and> split_on c s = [p, r]"
proof -
  from assms have one: "length (filter (\<lambda>x. x = c) s) = 1" by (simp add: length_split_on)
  then have "c \<in> set s"
    by (metis (mono_tags, lifting) filter_False length_0_conv zero_neq_one)
  then obtain p r where s: "s = p @ c # r" and p: "c \<notin> set p"
    by (meson split_list_first)
  from one s p have "length (filter (\<lambda>x. x = c) r) = 0" by simp
  then have r: "c \<notin> set r" by (auto simp: filter_empty_conv)
  show ?thesis using s p r by (simp add: split_on_append split_on_no_sep)
qed

lemma split_on_two_iff:
  "split_on c s = [p, r] \<longleftrightarrow> s = p @ c # r \<and> c \<notin> set p \<and> c \<notin> set r"
proof
  assume h: "split_on c s = [p, r]"
  then have "length (split_on c s) = 2" by simp
  from split_on_two[OF this] h show "s = p @ c # r \<and> c \<notin> set p \<and> c \<notin> set r" by auto
next
  assume "s = p @ c # r \<and> c \<notin> set p \<and> c \<notin> set r"
  then show "split_on c s = [p, r]" by (simp add: split_on_append split_on_no_sep)
qed

lemma digits_no_dash: "list_all isDigit a \<Longrightarrow> CHR ''-'' \<notin> set a"
  using dash_not_digit by (auto simp: list_all_iff)

lemma parseInt_digits:
  assumes "ds \<noteq> []" "list_all isDigit ds"
  shows "parseInt ds = roundToDouble (digitsValue ds)"
proof -
  from assms obtain d ds' where ds: "ds = d # ds'" and d: "isDigit d" by (cases ds) auto
  have dw: "dropWhile isWhiteSpace ds = ds" using ds d digit_not_space by simp
  have tw: "takeWhile isDigit ds = ds" using assms(2) by (rule takeWhile_id)
  have hd: "hd ds \<noteq> CHR ''-''" "hd ds \<noteq> CHR ''+''" using ds digit_not_sign[OF d] by auto
  have nx: "take 2 ds \<noteq> ''0x''" "take 2 ds \<noteq> ''0X''"
    using assms(2) ds by (cases ds'; auto simp: isDigit_def)+
  show ?thesis using hd assms(1) nx by (simp add: parseInt_def Let_def dw tw)
qed

lemma matchRange_lenient:
  assumes "matchRange t = Some (a, b)"
  shows "split_on CHR ''-'' t = [a, b]" "parseInt a = roundToDouble (digitsValue a)"
    "parseInt b = roundToDouble (digitsValue b)" "parseInt10 a = roundToDouble (digitsValue a)"
    "parseInt10 b = roundToDouble (digitsValue b)"
proof -
  from assms have t: "t = a @ CHR ''-'' # b" and ne: "a \<noteq> []" "b \<noteq> []"
    and d: "list_all isDigit a" "list_all isDigit b"
    by (simp_all add: matchRange_Some_iff)
  show "split_on CHR ''-'' t = [a, b]"
    using t d by (simp add: split_on_two_iff digits_no_dash)
  show "parseInt a = roundToDouble (digitsValue a)" using ne d by (simp add: parseInt_digits)
  show "parseInt b = roundToDouble (digitsValue b)" using ne d by (simp add: parseInt_digits)
  show "parseInt10 a = roundToDouble (digitsValue a)" using ne d by (simp add: parseInt10_digits)
  show "parseInt10 b = roundToDouble (digitsValue b)" using ne d by (simp add: parseInt10_digits)
qed

text \<open>What a successful strict parse says about the identifier.\<close>

lemma parseCircuitIdParts_Inr:
  assumes "parseCircuitIdParts s = Inr parts"
  shows "\<exists>p r a b. split_on CHR '','' s = [p, r] \<and> matchRange (trim r) = Some (a, b)
           \<and> parts = \<lparr>prefix = trim p, rangeStart = roundToDouble (digitsValue a),
                       rangeEnd = roundToDouble (digitsValue b)\<rparr>"
proof -
  from assms have len: "length (split_on CHR '','' s) = 2"
    by (auto simp: parseCircuitIdParts_def Let_def split: if_splits)
  from split_on_two[OF len] obtain p r where sp: "split_on CHR '','' s = [p, r]" by blast
  from assms sp obtain a b where m: "matchRange (trim r) = Some (a, b)"
    and parts: "parts = \<lparr>prefix = trim p, rangeStart = parseInt10 a, rangeEnd = parseInt10 b\<rparr>"
    by (auto simp: parseCircuitIdParts_def Let_def split: option.splits)
  show ?thesis using sp m parts matchRange_lenient(4,5)[OF m] by simp
qed

lemma parseCircuitIdParts_Inr_intro:
  assumes "split_on CHR '','' s = [p, r]" "matchRange (trim r) = Some (a, b)"
  shows "parseCircuitIdParts s = Inr \<lparr>prefix = trim p, rangeStart = roundToDouble (digitsValue a),
                       rangeEnd = roundToDouble (digitsValue b)\<rparr>"
  using assms matchRange_lenient(4,5)[OF assms(2)]
  by (simp add: parseCircuitIdParts_def Let_def)

lemma strict_parse_lenient:
  assumes "parseCircuitIdParts s = Inr parts"
  shows "\<exists>p r a b. split_on CHR '','' s = [p, r] \<and> trim p = prefix parts
           \<and> split_on CHR ''-'' (trim r) = [a, b]
           \<and> parseInt a = rangeStart parts \<and> parseInt b = rangeEnd parts
           \<and> rangeStart parts = roundToDouble (digitsValue a) \<and> rangeEnd parts = roundToDouble (digitsValue b)"
proof -
  from parseCircuitIdParts_Inr[OF assms] obtain p r a b where
    sp: "split_on CHR '','' s = [p, r]" and m: "matchRange (trim r) = Some (a, b)"
    and parts: "parts = \<lparr>prefix = trim p, rangeStart = roundToDouble (digitsValue a),
                       rangeEnd = roundToDouble (digitsValue b)\<rparr>" by blast
  show ?thesis using sp parts matchRange_lenient(1,2,3)[OF m] by simp
qed

section \<open>Overlap of two identifiers\<close>

text \<open>
  C5. \<open>circuitIdsOverlap a b\<close> is true exactly when both identifiers parse, their
  prefixes are equal and their numeric ranges intersect (start of each at most the end of the
  other), the numbers being those the parser returns. For identifiers whose numbers are at
  most \<open>2 ^ 53\<close> these are the integers written in them. Identifiers with different
  prefixes never overlap, and a malformed identifier on either side gives false instead of a
  parse failure. In particular \<open>pon,1-8\<close> and \<open>pon,8-12\<close> overlap, \<open>pon,1-8\<close> and
  \<open>pon,9-12\<close> do not, and \<open>pon,1-8\<close> and \<open>lg,1-8\<close> do not.
\<close>

theorem circuitIdsOverlap_iff:
  "(\<forall>a b. circuitIdsOverlap a b \<longleftrightarrow>
      (\<exists>pa pb.
         parseCircuitIdParts a = Inr pa \<and> parseCircuitIdParts b = Inr pb
         \<and> prefix pa = prefix pb
         \<and> num_le (rangeStart pa) (rangeEnd pb) \<and> num_le (rangeStart pb) (rangeEnd pa)))
   \<and> (\<forall>p r x y p' r' x' y'.
         CHR '','' \<notin> set p \<and> CHR '','' \<notin> set r \<and> trim r = x @ CHR ''-'' # y
         \<and> x \<noteq> [] \<and> y \<noteq> [] \<and> list_all isDigit x \<and> list_all isDigit y
         \<and> CHR '','' \<notin> set p' \<and> CHR '','' \<notin> set r' \<and> trim r' = x' @ CHR ''-'' # y'
         \<and> x' \<noteq> [] \<and> y' \<noteq> [] \<and> list_all isDigit x' \<and> list_all isDigit y'
         \<and> digitsValue x \<le> 2 ^ 53 \<and> digitsValue y \<le> 2 ^ 53
         \<and> digitsValue x' \<le> 2 ^ 53 \<and> digitsValue y' \<le> 2 ^ 53 \<longrightarrow>
         circuitIdsOverlap (p @ CHR '','' # r) (p' @ CHR '','' # r')
           = (trim p = trim p' \<and> digitsValue x \<le> digitsValue y'
                \<and> digitsValue x' \<le> digitsValue y))
   \<and> (\<forall>a b pa pb. parseCircuitIdParts a = Inr pa \<and> parseCircuitIdParts b = Inr pb
         \<and> prefix pa \<noteq> prefix pb \<longrightarrow> \<not> circuitIdsOverlap a b)
   \<and> (\<forall>a b e. parseCircuitIdParts a = Inl e \<or> parseCircuitIdParts b = Inl e
         \<longrightarrow> \<not> circuitIdsOverlap a b)
   \<and> circuitIdsOverlap ''pon,1-8'' ''pon,8-12''
   \<and> \<not> circuitIdsOverlap ''pon,1-8'' ''pon,9-12''
   \<and> \<not> circuitIdsOverlap ''pon,1-8'' ''lg,1-8''
   \<and> circuitIdsOverlap ''a,9007199254740993-9007199254740993''
        ''a,9007199254740992-9007199254740992''"
proof (intro conjI allI impI)
  fix a b
  show "circuitIdsOverlap a b \<longleftrightarrow>
      (\<exists>pa pb.
         parseCircuitIdParts a = Inr pa \<and> parseCircuitIdParts b = Inr pb
         \<and> prefix pa = prefix pb
         \<and> num_le (rangeStart pa) (rangeEnd pb) \<and> num_le (rangeStart pb) (rangeEnd pa))"
    by (cases "parseCircuitIdParts a"; cases "parseCircuitIdParts b")
       (simp_all add: circuitIdsOverlap_def)
next
  fix p r x y p' r' x' y'
  assume h: "CHR '','' \<notin> set p \<and> CHR '','' \<notin> set r \<and> trim r = x @ CHR ''-'' # y
         \<and> x \<noteq> [] \<and> y \<noteq> [] \<and> list_all isDigit x \<and> list_all isDigit y
         \<and> CHR '','' \<notin> set p' \<and> CHR '','' \<notin> set r' \<and> trim r' = x' @ CHR ''-'' # y'
         \<and> x' \<noteq> [] \<and> y' \<noteq> [] \<and> list_all isDigit x' \<and> list_all isDigit y'
         \<and> digitsValue x \<le> 2 ^ 53 \<and> digitsValue y \<le> 2 ^ 53
         \<and> digitsValue x' \<le> 2 ^ 53 \<and> digitsValue y' \<le> 2 ^ 53"
  have sp: "split_on CHR '','' (p @ CHR '','' # r) = [p, r]"
    "split_on CHR '','' (p' @ CHR '','' # r') = [p', r']"
    using h by (simp_all add: split_on_two_iff)
  have m: "matchRange (trim r) = Some (x, y)" "matchRange (trim r') = Some (x', y')"
    using h by (simp_all add: matchRange_Some_iff)
  have nn: "0 \<le> digitsValue x" "0 \<le> digitsValue y" "0 \<le> digitsValue x'" "0 \<le> digitsValue y'"
    using h by (simp_all add: digitsValue_nonneg)
  have ab: "\<bar>digitsValue x\<bar> \<le> 2 ^ 53" "\<bar>digitsValue y\<bar> \<le> 2 ^ 53"
    "\<bar>digitsValue x'\<bar> \<le> 2 ^ 53" "\<bar>digitsValue y'\<bar> \<le> 2 ^ 53"
    using h nn by simp_all
  note ex = ab[THEN roundToDouble_exact]
  note pa = parseCircuitIdParts_Inr_intro[OF sp(1) m(1), unfolded ex]
  note pb = parseCircuitIdParts_Inr_intro[OF sp(2) m(2), unfolded ex]
  show "circuitIdsOverlap (p @ CHR '','' # r) (p' @ CHR '','' # r')
           = (trim p = trim p' \<and> digitsValue x \<le> digitsValue y'
                \<and> digitsValue x' \<le> digitsValue y)"
    by (simp add: circuitIdsOverlap_def pa pb)
next
  fix a b pa pb
  assume "parseCircuitIdParts a = Inr pa \<and> parseCircuitIdParts b = Inr pb \<and> prefix pa \<noteq> prefix pb"
  then show "\<not> circuitIdsOverlap a b" by (simp add: circuitIdsOverlap_def)
next
  fix a b e
  assume "parseCircuitIdParts a = Inl e \<or> parseCircuitIdParts b = Inl e"
  then show "\<not> circuitIdsOverlap a b"
    by (auto simp: circuitIdsOverlap_def split: sum.splits)
qed (code_simp+)

theorem circuitIdsOverlap_iff_witness:
  "parseCircuitIdParts ''pon,1-8'' = Inr \<lparr>prefix = ''pon'', rangeStart = Num 1, rangeEnd = Num 8\<rparr>
   \<and> parseCircuitIdParts ''lg,1-8'' = Inr \<lparr>prefix = ''lg'', rangeStart = Num 1, rangeEnd = Num 8\<rparr>
   \<and> parseCircuitIdParts ''pon 1 8'' = Inl (InvalidCircuitIdFormat ''pon 1 8'')
   \<and> \<not> circuitIdsOverlap ''pon,1-8'' ''lg,1-8''
   \<and> \<not> circuitIdsOverlap ''pon 1 8'' ''pon,1-8''
   \<and> digitsValue ''1'' \<le> 2 ^ 53 \<and> digitsValue ''8'' \<le> 2 ^ 53
   \<and> digitsValue ''9'' \<le> 2 ^ 53 \<and> digitsValue ''12'' \<le> 2 ^ 53
   \<and> circuitIdsOverlap (''pon '' @ CHR '','' # '' 1-8'') (''pon'' @ CHR '','' # ''9-12 '')
       = (trim ''pon '' = trim ''pon'' \<and> digitsValue ''1'' \<le> digitsValue ''12''
            \<and> digitsValue ''9'' \<le> digitsValue ''8'')
   \<and> \<not> circuitIdsOverlap ''pon , 1-8'' ''pon,9-12 ''"
proof -
  have a: "parseCircuitIdParts ''pon,1-8'' = Inr \<lparr>prefix = ''pon'', rangeStart = Num 1, rangeEnd = Num 8\<rparr>"
    by code_simp
  have b: "parseCircuitIdParts ''lg,1-8'' = Inr \<lparr>prefix = ''lg'', rangeStart = Num 1, rangeEnd = Num 8\<rparr>"
    by code_simp
  have c: "parseCircuitIdParts ''pon 1 8'' = Inl (InvalidCircuitIdFormat ''pon 1 8'')"
    by code_simp
  have ne: "prefix \<lparr>prefix = ''pon'', rangeStart = Num 1, rangeEnd = Num 8\<rparr>
      \<noteq> prefix \<lparr>prefix = ''lg'', rangeStart = Num 1, rangeEnd = Num 8\<rparr>" by simp
  have d: "\<not> circuitIdsOverlap ''pon,1-8'' ''lg,1-8''"
    using circuitIdsOverlap_iff[THEN conjunct2, THEN conjunct2, THEN conjunct1, rule_format,
        OF conjI[OF a conjI[OF b ne]]] .
  have e: "\<not> circuitIdsOverlap ''pon 1 8'' ''pon,1-8''"
    using circuitIdsOverlap_iff[THEN conjunct2, THEN conjunct2, THEN conjunct2, THEN conjunct1,
        rule_format, OF disjI1[OF c]] .
  have v: "digitsValue ''1'' = 1" "digitsValue ''8'' = 8" "digitsValue ''9'' = 9"
    "digitsValue ''12'' = 12" by code_simp+
  have t: "trim '' 1-8'' = ''1'' @ CHR ''-'' # ''8''" "trim ''9-12 '' = ''9'' @ CHR ''-'' # ''12''"
    "trim ''pon '' = ''pon''" "trim ''pon'' = ''pon''"
    by code_simp+
  have bd: "digitsValue ''1'' \<le> 2 ^ 53 \<and> digitsValue ''8'' \<le> 2 ^ 53
     \<and> digitsValue ''9'' \<le> 2 ^ 53 \<and> digitsValue ''12'' \<le> 2 ^ 53"
    unfolding v by simp
  have h: "CHR '','' \<notin> set ''pon '' \<and> CHR '','' \<notin> set '' 1-8''
         \<and> trim '' 1-8'' = ''1'' @ CHR ''-'' # ''8''
         \<and> ''1'' \<noteq> [] \<and> ''8'' \<noteq> [] \<and> list_all isDigit ''1'' \<and> list_all isDigit ''8''
         \<and> CHR '','' \<notin> set ''pon'' \<and> CHR '','' \<notin> set ''9-12 ''
         \<and> trim ''9-12 '' = ''9'' @ CHR ''-'' # ''12''
         \<and> ''9'' \<noteq> [] \<and> ''12'' \<noteq> [] \<and> list_all isDigit ''9'' \<and> list_all isDigit ''12''
         \<and> digitsValue ''1'' \<le> 2 ^ 53 \<and> digitsValue ''8'' \<le> 2 ^ 53
         \<and> digitsValue ''9'' \<le> 2 ^ 53 \<and> digitsValue ''12'' \<le> 2 ^ 53"
    using t(1,2) bd by (simp add: isDigit_def)
  note f = circuitIdsOverlap_iff[THEN conjunct2, THEN conjunct1, THEN spec, THEN spec, THEN spec,
      THEN spec, THEN spec, THEN spec, THEN spec, THEN spec, THEN mp, OF h]
  have g: "\<not> circuitIdsOverlap ''pon , 1-8'' ''pon,9-12 ''"
    using f unfolding v t by simp
  show ?thesis using a b c d e bd f g by (intro conjI) simp_all
qed


section \<open>The format accepted by the parser\<close>

text \<open>
  C6, as stated, asks for a failure when start is above end. The parser makes no such
  comparison: \<open>pon,8-1\<close>, which normalisation leaves as it is, parses to start 8 and
  end 1.
\<close>

theorem parseCircuitIdParts_accepts_reversed_range:
  "parseCircuitIdParts (normalizeCircuitId ''pon,8-1'')
     = Inr \<lparr>prefix = ''pon'', rangeStart = Num 8, rangeEnd = Num 1\<rparr>"
  by code_simp


text \<open>
  C6, amended. \<open>parseCircuitIdParts\<close> fails with a format error exactly when the
  identifier does not consist of two parts separated by one comma, or the trimmed second part
  is not digits, a hyphen and digits; it does not compare start with end. On success it
  returns the trimmed prefix and the numbers start and end read from the two runs of digits:
  the integers written there when they are at most \<open>2 ^ 53\<close>, the nearest number
  otherwise.
\<close>

theorem parseCircuitIdParts_format:
  "(\<forall>p r a b. CHR '','' \<notin> set p \<and> CHR '','' \<notin> set r \<and> trim r = a @ CHR ''-'' # b
       \<and> a \<noteq> [] \<and> b \<noteq> [] \<and> list_all isDigit a \<and> list_all isDigit b \<longrightarrow>
       parseCircuitIdParts (p @ CHR '','' # r)
         = Inr \<lparr>prefix = trim p, rangeStart = roundToDouble (digitsValue a),
                rangeEnd = roundToDouble (digitsValue b)\<rparr>)
   \<and> (\<forall>p r a b. CHR '','' \<notin> set p \<and> CHR '','' \<notin> set r \<and> trim r = a @ CHR ''-'' # b
       \<and> a \<noteq> [] \<and> b \<noteq> [] \<and> list_all isDigit a \<and> list_all isDigit b
       \<and> digitsValue a \<le> 2 ^ 53 \<and> digitsValue b \<le> 2 ^ 53 \<longrightarrow>
       parseCircuitIdParts (p @ CHR '','' # r)
         = Inr \<lparr>prefix = trim p, rangeStart = Num (digitsValue a),
                rangeEnd = Num (digitsValue b)\<rparr>)
   \<and> (\<forall>p r. CHR '','' \<notin> set p \<and> CHR '','' \<notin> set r
       \<and> \<not> (\<exists>a b. trim r = a @ CHR ''-'' # b
               \<and> a \<noteq> [] \<and> b \<noteq> [] \<and> list_all isDigit a \<and> list_all isDigit b) \<longrightarrow>
       parseCircuitIdParts (p @ CHR '','' # r)
         = Inl (InvalidCircuitIdRangeFormat (p @ CHR '','' # r)))
   \<and> (\<forall>s. \<not> (\<exists>p r. s = p @ CHR '','' # r \<and> CHR '','' \<notin> set p \<and> CHR '','' \<notin> set r) \<longrightarrow>
       parseCircuitIdParts s = Inl (InvalidCircuitIdFormat s))
   \<and> parseCircuitIdParts (normalizeCircuitId ''BR 021 365 372'')
       = Inr \<lparr>prefix = ''BR021'', rangeStart = Num 365, rangeEnd = Num 372\<rparr>
   \<and> parseCircuitIdParts (normalizeCircuitId ''pon,8-1'')
       = Inr \<lparr>prefix = ''pon'', rangeStart = Num 8, rangeEnd = Num 1\<rparr>
   \<and> parseCircuitIdParts ''a,1-9007199254740993''
       = Inr \<lparr>prefix = ''a'', rangeStart = Num 1, rangeEnd = Num 9007199254740992\<rparr>"
proof (intro conjI allI impI)
  fix p r a b
  assume h: "CHR '','' \<notin> set p \<and> CHR '','' \<notin> set r \<and> trim r = a @ CHR ''-'' # b
       \<and> a \<noteq> [] \<and> b \<noteq> [] \<and> list_all isDigit a \<and> list_all isDigit b"
  then have sp: "split_on CHR '','' (p @ CHR '','' # r) = [p, r]"
    by (simp add: split_on_two_iff)
  from h have "matchRange (trim r) = Some (a, b)" by (simp add: matchRange_Some_iff)
  from parseCircuitIdParts_Inr_intro[OF sp this]
  show "parseCircuitIdParts (p @ CHR '','' # r)
         = Inr \<lparr>prefix = trim p, rangeStart = roundToDouble (digitsValue a),
                rangeEnd = roundToDouble (digitsValue b)\<rparr>" .
next
  fix p r a b
  assume h: "CHR '','' \<notin> set p \<and> CHR '','' \<notin> set r \<and> trim r = a @ CHR ''-'' # b
       \<and> a \<noteq> [] \<and> b \<noteq> [] \<and> list_all isDigit a \<and> list_all isDigit b
       \<and> digitsValue a \<le> 2 ^ 53 \<and> digitsValue b \<le> 2 ^ 53"
  then have sp: "split_on CHR '','' (p @ CHR '','' # r) = [p, r]"
    by (simp add: split_on_two_iff)
  from h have m: "matchRange (trim r) = Some (a, b)" by (simp add: matchRange_Some_iff)
  have nn: "0 \<le> digitsValue a" "0 \<le> digitsValue b"
    using h by (simp_all add: digitsValue_nonneg)
  have ab: "\<bar>digitsValue a\<bar> \<le> 2 ^ 53" "\<bar>digitsValue b\<bar> \<le> 2 ^ 53"
    using h nn by simp_all
  note ex = ab[THEN roundToDouble_exact]
  from parseCircuitIdParts_Inr_intro[OF sp m, unfolded ex]
  show "parseCircuitIdParts (p @ CHR '','' # r)
         = Inr \<lparr>prefix = trim p, rangeStart = Num (digitsValue a),
                rangeEnd = Num (digitsValue b)\<rparr>" .
next
  fix p r
  assume h: "CHR '','' \<notin> set p \<and> CHR '','' \<notin> set r
       \<and> \<not> (\<exists>a b. trim r = a @ CHR ''-'' # b
               \<and> a \<noteq> [] \<and> b \<noteq> [] \<and> list_all isDigit a \<and> list_all isDigit b)"
  then have sp: "split_on CHR '','' (p @ CHR '','' # r) = [p, r]"
    by (simp add: split_on_two_iff)
  have "matchRange (trim r) = None"
  proof (cases "matchRange (trim r)")
    case None then show ?thesis .
  next
    case (Some m)
    obtain a b where "m = (a, b)" by (cases m)
    with Some h show ?thesis by (auto simp: matchRange_Some_iff)
  qed
  then show "parseCircuitIdParts (p @ CHR '','' # r)
         = Inl (InvalidCircuitIdRangeFormat (p @ CHR '','' # r))"
    using sp by (simp add: parseCircuitIdParts_def Let_def)
next
  fix s
  assume h: "\<not> (\<exists>p r. s = p @ CHR '','' # r \<and> CHR '','' \<notin> set p \<and> CHR '','' \<notin> set r)"
  have "length (split_on CHR '','' s) \<noteq> 2"
    using split_on_two[of "CHR '',''" s] h by blast
  then show "parseCircuitIdParts s = Inl (InvalidCircuitIdFormat s)"
    by (simp add: parseCircuitIdParts_def Let_def)
qed (code_simp+)

theorem parseCircuitIdParts_format_witness:
  "parseCircuitIdParts (''pon'' @ CHR '','' # '' 8-1 '')
     = Inr \<lparr>prefix = ''pon'', rangeStart = Num 8, rangeEnd = Num 1\<rparr>
   \<and> parseCircuitIdParts (''pon'' @ CHR '','' # '' 8-1 '')
     = Inr \<lparr>prefix = ''pon'', rangeStart = roundToDouble 8, rangeEnd = roundToDouble 1\<rparr>
   \<and> digitsValue ''8'' \<le> 2 ^ 53 \<and> digitsValue ''1'' \<le> 2 ^ 53
   \<and> parseCircuitIdParts (''pon'' @ CHR '','' # ''8-x'')
     = Inl (InvalidCircuitIdRangeFormat ''pon,8-x'')
   \<and> parseCircuitIdParts ''pon 8 1'' = Inl (InvalidCircuitIdFormat ''pon 8 1'')"
proof -
  have t: "trim '' 8-1 '' = ''8'' @ CHR ''-'' # ''1''" by code_simp
  have v: "trim ''pon'' = ''pon''" "digitsValue ''8'' = 8" "digitsValue ''1'' = 1" by code_simp+
  have bd: "digitsValue ''8'' \<le> 2 ^ 53 \<and> digitsValue ''1'' \<le> 2 ^ 53"
    unfolding v by simp
  have h0: "CHR '','' \<notin> set ''pon'' \<and> CHR '','' \<notin> set '' 8-1 '' \<and> trim '' 8-1 '' = ''8'' @ CHR ''-'' # ''1''
       \<and> ''8'' \<noteq> [] \<and> ''1'' \<noteq> [] \<and> list_all isDigit ''8'' \<and> list_all isDigit ''1''"
    using t by (simp add: isDigit_def)
  have h1: "CHR '','' \<notin> set ''pon'' \<and> CHR '','' \<notin> set '' 8-1 '' \<and> trim '' 8-1 '' = ''8'' @ CHR ''-'' # ''1''
       \<and> ''8'' \<noteq> [] \<and> ''1'' \<noteq> [] \<and> list_all isDigit ''8'' \<and> list_all isDigit ''1''
       \<and> digitsValue ''8'' \<le> 2 ^ 53 \<and> digitsValue ''1'' \<le> 2 ^ 53"
    using t bd by (simp add: isDigit_def)
  have t2: "trim ''8-x'' = ''8-x''" by code_simp
  have h2: "CHR '','' \<notin> set ''pon'' \<and> CHR '','' \<notin> set ''8-x''
       \<and> \<not> (\<exists>a b. trim ''8-x'' = a @ CHR ''-'' # b
               \<and> a \<noteq> [] \<and> b \<noteq> [] \<and> list_all isDigit a \<and> list_all isDigit b)"
  proof -
    have "matchRange ''8-x'' = None" by code_simp
    then have "\<not> (\<exists>a b. ''8-x'' = a @ CHR ''-'' # b
               \<and> a \<noteq> [] \<and> b \<noteq> [] \<and> list_all isDigit a \<and> list_all isDigit b)"
      using matchRange_Some_iff[of "''8-x''"] by (metis option.distinct(1))
    then show ?thesis unfolding t2 by simp
  qed
  have h3: "\<not> (\<exists>p r. ''pon 8 1'' = p @ CHR '','' # r \<and> CHR '','' \<notin> set p \<and> CHR '','' \<notin> set r)"
  proof
    assume "\<exists>p r. ''pon 8 1'' = p @ CHR '','' # r \<and> CHR '','' \<notin> set p \<and> CHR '','' \<notin> set r"
    then obtain p r where "''pon 8 1'' = p @ CHR '','' # r" by blast
    then have "CHR '','' \<in> set ''pon 8 1''" by (metis in_set_conv_decomp)
    then show False by simp
  qed
  have c0: "parseCircuitIdParts (''pon'' @ CHR '','' # '' 8-1 '')
     = Inr \<lparr>prefix = trim ''pon'', rangeStart = roundToDouble (digitsValue ''8''),
            rangeEnd = roundToDouble (digitsValue ''1'')\<rparr>"
    using parseCircuitIdParts_format[THEN conjunct1, THEN spec, THEN spec, THEN spec, THEN spec,
        THEN mp, OF h0] .
  have c1: "parseCircuitIdParts (''pon'' @ CHR '','' # '' 8-1 '')
     = Inr \<lparr>prefix = trim ''pon'', rangeStart = Num (digitsValue ''8''), rangeEnd = Num (digitsValue ''1'')\<rparr>"
    using parseCircuitIdParts_format[THEN conjunct2, THEN conjunct1, THEN spec, THEN spec,
        THEN spec, THEN spec, THEN mp, OF h1] .
  have c2: "parseCircuitIdParts (''pon'' @ CHR '','' # ''8-x'') = Inl (InvalidCircuitIdRangeFormat (''pon'' @ CHR '','' # ''8-x''))"
    using parseCircuitIdParts_format[THEN conjunct2, THEN conjunct2, THEN conjunct1, rule_format, OF h2] .
  have c3: "parseCircuitIdParts ''pon 8 1'' = Inl (InvalidCircuitIdFormat ''pon 8 1'')"
    using parseCircuitIdParts_format[THEN conjunct2, THEN conjunct2, THEN conjunct2, THEN conjunct1,
        rule_format, OF h3] .
  have c0': "parseCircuitIdParts (''pon'' @ CHR '','' # '' 8-1 '')
     = Inr \<lparr>prefix = ''pon'', rangeStart = roundToDouble 8, rangeEnd = roundToDouble 1\<rparr>"
    using c0 unfolding v .
  have c1': "parseCircuitIdParts (''pon'' @ CHR '','' # '' 8-1 '')
     = Inr \<lparr>prefix = ''pon'', rangeStart = Num 8, rangeEnd = Num 1\<rparr>"
    using c1 unfolding v .
  show ?thesis using c0' c1' c2 c3 bd by (intro conjI) simp_all
qed

section \<open>Trimming and normalisation\<close>

lemma comma_not_space: "\<not> isWhiteSpace CHR '',''"
  by (simp add: isWhiteSpace_def)

lemma dropWhile_keeps: "\<not> P c \<Longrightarrow> c \<in> set xs \<Longrightarrow> c \<in> set (dropWhile P xs)"
  by (induction xs) auto

lemma trim_keeps: "\<not> isWhiteSpace c \<Longrightarrow> c \<in> set s \<Longrightarrow> c \<in> set (trim s)"
  by (simp add: trim_def dropWhile_keeps)

lemma set_trim: "set (trim s) \<subseteq> set s"
proof -
  have "set (trim s) = set (dropWhile isWhiteSpace (rev (dropWhile isWhiteSpace s)))"
    by (simp add: trim_def)
  also have "\<dots> \<subseteq> set (rev (dropWhile isWhiteSpace s))" by (meson set_dropWhileD subsetI)
  also have "\<dots> \<subseteq> set s" using set_dropWhileD by fastforce
  finally show ?thesis .
qed

lemma last_dropWhile: "dropWhile P xs \<noteq> [] \<Longrightarrow> last (dropWhile P xs) = last xs"
  by (induction xs) (auto split: if_splits)

lemma trim_fixed:
  assumes "s = [] \<or> (\<not> isWhiteSpace (hd s) \<and> \<not> isWhiteSpace (last s))"
  shows "trim s = s"
proof (cases s)
  case Nil
  then show ?thesis by (simp add: trim_def)
next
  case (Cons x xs)
  with assms have h: "\<not> isWhiteSpace x" and l: "\<not> isWhiteSpace (last s)" by auto
  have d: "dropWhile isWhiteSpace s = s" using Cons h by simp
  obtain y ys where r: "rev s = y # ys" using Cons by (cases "rev s") auto
  have "hd (rev s) = last s" using Cons by (simp add: hd_rev)
  then have "y = last s" using r by simp
  then have "dropWhile isWhiteSpace (y # ys) = y # ys" using l by simp
  then have "dropWhile isWhiteSpace (rev s) = rev s" using r by simp
  then show ?thesis by (simp add: trim_def d)
qed

lemma trim_shape:
  "trim s = [] \<or> (\<not> isWhiteSpace (hd (trim s)) \<and> \<not> isWhiteSpace (last (trim s)))"
proof (cases "trim s = []")
  case True
  then show ?thesis by simp
next
  case False
  let ?d = "dropWhile isWhiteSpace s"
  let ?e = "dropWhile isWhiteSpace (rev ?d)"
  have t: "trim s = rev ?e" by (simp add: trim_def)
  with False have e: "?e \<noteq> []" by simp
  have d: "?d \<noteq> []"
  proof
    assume a: "?d = []"
    have "?e = []" unfolding a by simp
    with e show False by simp
  qed
  have "\<not> isWhiteSpace (hd ?e)" using e by (rule hd_dropWhile)
  then have l: "\<not> isWhiteSpace (last (trim s))" using e t by (simp add: last_rev)
  have "last ?e = last (rev ?d)" using e by (rule last_dropWhile)
  also have "\<dots> = hd ?d" using d by (simp add: last_rev)
  finally have "hd (trim s) = hd ?d" using e t by (simp add: hd_rev)
  moreover have "\<not> isWhiteSpace (hd ?d)" using d by (rule hd_dropWhile)
  ultimately show ?thesis using l by simp
qed

lemma trim_idem: "trim (trim s) = trim s"
  using trim_shape[of s] by (rule trim_fixed)

text \<open>The pieces of \<open>splitWs\<close>.\<close>

lemma splitWs_Nil: "dropWhile (\<lambda>c. \<not> isWhiteSpace c) s = [] \<Longrightarrow> splitWs s = [s]"
  by (subst splitWs.simps) (simp only: list.case)

lemma splitWs_Cons:
  "dropWhile (\<lambda>c. \<not> isWhiteSpace c) s = w # rest \<Longrightarrow>
   splitWs s = takeWhile (\<lambda>c. \<not> isWhiteSpace c) s # splitWs (dropWhile isWhiteSpace rest)"
  by (subst splitWs.simps) (simp only: list.case)

lemma splitWs_nonempty: "splitWs s \<noteq> []"
  by (cases "dropWhile (\<lambda>c. \<not> isWhiteSpace c) s") (simp_all only: splitWs_Nil splitWs_Cons, simp_all)

lemma hd_splitWs: "hd (splitWs s) = takeWhile (\<lambda>c. \<not> isWhiteSpace c) s"
proof (cases "dropWhile (\<lambda>c. \<not> isWhiteSpace c) s")
  case Nil
  have "takeWhile (\<lambda>c. \<not> isWhiteSpace c) s @ dropWhile (\<lambda>c. \<not> isWhiteSpace c) s = s"
    by (rule takeWhile_dropWhile_id)
  then have tw: "takeWhile (\<lambda>c. \<not> isWhiteSpace c) s = s" unfolding Nil by simp
  have sp: "splitWs s = [s]" using Nil by (rule splitWs_Nil)
  show ?thesis unfolding sp tw by simp
next
  case (Cons w rest)
  show ?thesis using splitWs_Cons[OF Cons] by simp
qed

lemma splitWs_last_nonempty:
  "s \<noteq> [] \<Longrightarrow> \<not> isWhiteSpace (last s) \<Longrightarrow>
   last (splitWs s) \<noteq> [] \<and> \<not> isWhiteSpace (last (last (splitWs s)))"
proof (induction s rule: splitWs.induct)
  case (1 s)
  show ?case
  proof (cases "dropWhile (\<lambda>c. \<not> isWhiteSpace c) s")
    case Nil
    then have "splitWs s = [s]" by (rule splitWs_Nil)
    then show ?thesis using "1.prems" by simp
  next
    case (Cons w rest)
    let ?r = "dropWhile isWhiteSpace rest"
    have sp: "splitWs s = takeWhile (\<lambda>c. \<not> isWhiteSpace c) s # splitWs ?r"
      using Cons by (rule splitWs_Cons)
    have w: "isWhiteSpace w" using hd_dropWhile[of "\<lambda>c. \<not> isWhiteSpace c" s] Cons by simp
    have ls: "last (w # rest) = last s"
      using last_dropWhile[of "\<lambda>c. \<not> isWhiteSpace c" s] Cons by simp
    have rne: "rest \<noteq> []" using ls w "1.prems"(2) by (cases rest) auto
    have r: "?r \<noteq> []"
    proof
      assume "?r = []"
      then have "\<forall>c\<in>set rest. isWhiteSpace c" by (simp add: dropWhile_eq_Nil_conv)
      then have "isWhiteSpace (last rest)" using rne by simp
      then show False using ls rne "1.prems"(2) by simp
    qed
    have "last ?r = last rest" using r by (rule last_dropWhile)
    then have "\<not> isWhiteSpace (last ?r)" using ls rne "1.prems"(2) by simp
    from "1.IH"[OF Cons r this] show ?thesis using sp splitWs_nonempty[of ?r] by simp
  qed
qed

lemma splitWs_hd_nonempty:
  assumes "s \<noteq> []" "\<not> isWhiteSpace (hd s)"
  shows "hd (splitWs s) \<noteq> [] \<and> \<not> isWhiteSpace (hd (hd (splitWs s)))"
proof -
  obtain x xs where s: "s = x # xs" using assms(1) by (cases s) auto
  have "hd (splitWs s) = takeWhile (\<lambda>c. \<not> isWhiteSpace c) s"
    by (rule hd_splitWs)
  then show ?thesis using s assms(2) by simp
qed

lemma hd_concat_take:
  assumes "parts \<noteq> []" "hd parts \<noteq> []" "0 < n"
  shows "concat (take n parts) \<noteq> [] \<and> hd (concat (take n parts)) = hd (hd parts)"
proof -
  obtain p ps where "parts = p # ps" using assms(1) by (cases parts) auto
  moreover obtain m where "n = Suc m" using assms(3) by (cases n) auto
  ultimately show ?thesis using assms(2) by simp
qed

lemma normalize_shape:
  "normalizeCircuitId s = []
   \<or> (\<not> isWhiteSpace (hd (normalizeCircuitId s)) \<and> \<not> isWhiteSpace (last (normalizeCircuitId s)))"
proof -
  let ?t = "trim s" and ?parts = "splitWs (trim s)"
  let ?n = "length ?parts"
  show ?thesis
  proof (cases "CHR '','' \<in> set ?t \<or> ?n < 3")
    case True
    then have "normalizeCircuitId s = ?t" by (auto simp: normalizeCircuitId_def Let_def)
    then show ?thesis using trim_shape[of s] by simp
  next
    case False
    then have n: "3 \<le> ?n" and nc: "CHR '','' \<notin> set ?t" by auto
    let ?pre = "concat (take (?n - 2) ?parts)"
    have eq: "normalizeCircuitId s = ?pre @ '','' @ ?parts ! (?n - 2) @ ''-'' @ ?parts ! (?n - 1)"
      using n nc by (simp add: normalizeCircuitId_def Let_def)
    have tne: "?t \<noteq> []"
    proof
      assume "?t = []"
      then have "?parts = [[]]" by (simp add: splitWs_Nil)
      then show False using n by simp
    qed
    then have sh: "\<not> isWhiteSpace (hd ?t)" "\<not> isWhiteSpace (last ?t)"
      using trim_shape[of s] by auto
    have pne: "?parts \<noteq> []" by (rule splitWs_nonempty)
    have lastp: "?parts ! (?n - 1) = last ?parts" using pne by (simp add: last_conv_nth)
    from splitWs_last_nonempty[OF tne sh(2)]
    have l: "last ?parts \<noteq> []" "\<not> isWhiteSpace (last (last ?parts))" by auto
    from splitWs_hd_nonempty[OF tne sh(1)]
    have h: "hd ?parts \<noteq> []" "\<not> isWhiteSpace (hd (hd ?parts))" by auto
    have "0 < ?n - 2" using n by simp
    from hd_concat_take[OF pne h(1) this]
    have pre: "?pre \<noteq> []" "hd ?pre = hd (hd ?parts)" by auto
    have "hd (normalizeCircuitId s) = hd (hd ?parts)" using eq pre by simp
    moreover have "last (normalizeCircuitId s) = last (last ?parts)"
      using eq l(1) lastp by simp
    ultimately show ?thesis using h(2) l(2) by simp
  qed
qed

lemma normalize_comma: "CHR '','' \<in> set s \<Longrightarrow> normalizeCircuitId s = trim s"
  using trim_keeps[OF comma_not_space, of s] by (simp add: normalizeCircuitId_def Let_def)

lemma normalize_idem: "normalizeCircuitId (normalizeCircuitId s) = normalizeCircuitId s"
proof -
  let ?t = "trim s" and ?parts = "splitWs (trim s)"
  have fx: "trim (normalizeCircuitId s) = normalizeCircuitId s"
    using normalize_shape[of s] by (rule trim_fixed)
  show ?thesis
  proof (cases "CHR '','' \<in> set (normalizeCircuitId s)")
    case True
    then show ?thesis using fx by (simp add: normalize_comma)
  next
    case False
    then have "normalizeCircuitId s = ?t"
      by (auto simp: normalizeCircuitId_def Let_def split: if_splits)
    then show ?thesis
      by (simp add: normalizeCircuitId_def[of "trim s"] trim_idem Let_def)
        (auto simp: normalizeCircuitId_def Let_def split: if_splits)
  qed
qed

lemma space_is_space: "isWhiteSpace CHR '' ''"
  by (simp add: isWhiteSpace_def)

lemma token_takeWhile:
  "isToken t \<Longrightarrow> takeWhile (\<lambda>c. \<not> isWhiteSpace c) (t @ CHR '' '' # r) = t"
  by (simp add: isToken_def takeWhile_all list_all_iff space_is_space)

lemma token_dropWhile:
  "isToken t \<Longrightarrow> dropWhile (\<lambda>c. \<not> isWhiteSpace c) (t @ CHR '' '' # r) = CHR '' '' # r"
  by (simp add: isToken_def dropWhile_all list_all_iff space_is_space)

lemma token_dropWhile_end: "isToken t \<Longrightarrow> dropWhile (\<lambda>c. \<not> isWhiteSpace c) t = []"
  by (simp add: isToken_def list_all_iff)

lemma joinSpaces_hd:
  "list_all isToken (t # ts) \<Longrightarrow> joinSpaces (t # ts) \<noteq> [] \<and> hd (joinSpaces (t # ts)) = hd t"
  by (cases ts) (auto simp: isToken_def)

lemma joinSpaces_last:
  "list_all isToken ts \<Longrightarrow> ts \<noteq> [] \<Longrightarrow> last (joinSpaces ts) = last (last ts)"
proof (induction ts rule: joinSpaces.induct)
  case 1
  then show ?case by simp
next
  case (2 t)
  then show ?case by simp
next
  case (3 t u ts)
  then have "list_all isToken (u # ts)" by simp
  from joinSpaces_hd[OF this] "3.IH"[OF this] show ?case by simp
qed

lemma joinSpaces_no_comma:
  "list_all isToken ts \<Longrightarrow> CHR '','' \<notin> set (joinSpaces ts)"
  by (induction ts rule: joinSpaces.induct) (auto simp: isToken_def list_all_iff)

lemma splitWs_joinSpaces:
  "list_all isToken ts \<Longrightarrow> ts \<noteq> [] \<Longrightarrow> splitWs (joinSpaces ts) = ts"
proof (induction ts rule: joinSpaces.induct)
  case 1
  then show ?case by simp
next
  case (2 t)
  then show ?case by (simp add: splitWs_Nil token_dropWhile_end)
next
  case (3 t u ts)
  then have t: "isToken t" and rest: "list_all isToken (u # ts)" by simp_all
  let ?r = "joinSpaces (u # ts)"
  from joinSpaces_hd[OF rest] have "?r \<noteq> []" "hd ?r = hd u" by auto
  moreover have "\<not> isWhiteSpace (hd u)" using rest by (cases u) (auto simp: isToken_def)
  ultimately have dr: "dropWhile isWhiteSpace ?r = ?r" by (cases ?r) auto
  have "splitWs (t @ CHR '' '' # ?r) = t # splitWs (dropWhile isWhiteSpace ?r)"
    using splitWs_Cons[OF token_dropWhile[OF t]] token_takeWhile[OF t] by simp
  then show ?case using "3.IH" rest dr by simp
qed

lemma trim_joinSpaces:
  assumes "list_all isToken ts"
  shows "trim (joinSpaces ts) = joinSpaces ts"
proof (cases ts)
  case Nil
  then show ?thesis by (simp add: trim_def)
next
  case (Cons t ts')
  have "\<not> isWhiteSpace (hd t)" using assms Cons by (cases t) (auto simp: isToken_def)
  then have h: "\<not> isWhiteSpace (hd (joinSpaces ts))"
    using joinSpaces_hd[of t ts'] assms Cons by simp
  have "isToken (last ts)" using assms Cons by (simp add: list_all_iff)
  then have "\<not> isWhiteSpace (last (last ts))" by (simp add: isToken_def list_all_iff)
  then have "\<not> isWhiteSpace (last (joinSpaces ts))"
    using joinSpaces_last[OF assms] Cons by simp
  with h show ?thesis by (simp add: trim_fixed)
qed

lemma normalize_tokens:
  assumes "list_all isToken (pre @ [a, b])" "pre \<noteq> []"
  shows "normalizeCircuitId (joinSpaces (pre @ [a, b])) = concat pre @ '','' @ a @ ''-'' @ b"
proof -
  let ?ts = "pre @ [a, b]"
  have tr: "trim (joinSpaces ?ts) = joinSpaces ?ts" using assms(1) by (rule trim_joinSpaces)
  have nc: "CHR '','' \<notin> set (joinSpaces ?ts)" using assms(1) by (rule joinSpaces_no_comma)
  have sp: "splitWs (joinSpaces ?ts) = ?ts" by (rule splitWs_joinSpaces[OF assms(1)]) simp
  have len: "\<not> length ?ts < 3" using assms(2) by (cases pre) auto
  have n1: "?ts ! (length ?ts - 1) = b" by (simp add: nth_append)
  have n2: "?ts ! (length ?ts - 2) = a" by (simp add: nth_append)
  have tk: "take (length ?ts - 2) ?ts = pre" by simp
  show ?thesis
    unfolding normalizeCircuitId_def Let_def tr sp
    using nc len n1 n2 tk by simp
qed


text \<open>
  C9. \<open>normalizeCircuitId\<close> turns \<open>pon 1 25\<close> into \<open>pon,1-25\<close> and
  \<open>BR 021 365 372\<close> into \<open>BR021,365-372\<close>: of three or more tokens, all but the last
  two are joined without separator into the prefix and the last two become start-end. An
  input that contains a comma is returned unchanged apart from trimming, and normalising
  twice gives the same as normalising once; \<open>pon,1-25\<close> is returned as it is.
\<close>

theorem normalizeCircuitId_properties:
  "normalizeCircuitId ''pon 1 25'' = ''pon,1-25''
   \<and> normalizeCircuitId ''BR 021 365 372'' = ''BR021,365-372''
   \<and> normalizeCircuitId ''pon,1-25'' = ''pon,1-25''
   \<and> (\<forall>pre a b. list_all isToken (pre @ [a, b]) \<and> pre \<noteq> [] \<longrightarrow>
        normalizeCircuitId (joinSpaces (pre @ [a, b])) = concat pre @ '','' @ a @ ''-'' @ b)
   \<and> (\<forall>s. CHR '','' \<in> set s \<longrightarrow> normalizeCircuitId s = trim s)
   \<and> (\<forall>s. normalizeCircuitId (normalizeCircuitId s) = normalizeCircuitId s)"
proof (intro conjI allI impI)
  show "normalizeCircuitId ''pon 1 25'' = ''pon,1-25''" by code_simp
  show "normalizeCircuitId ''BR 021 365 372'' = ''BR021,365-372''" by code_simp
  show "normalizeCircuitId ''pon,1-25'' = ''pon,1-25''" by code_simp
next
  fix pre a b
  assume "list_all isToken (pre @ [a, b]) \<and> pre \<noteq> []"
  then show "normalizeCircuitId (joinSpaces (pre @ [a, b])) = concat pre @ '','' @ a @ ''-'' @ b"
    by (simp add: normalize_tokens)
next
  fix s :: string
  assume "CHR '','' \<in> set s"
  then show "normalizeCircuitId s = trim s" by (rule normalize_comma)
next
  fix s
  show "normalizeCircuitId (normalizeCircuitId s) = normalizeCircuitId s" by (rule normalize_idem)
qed

theorem normalizeCircuitId_properties_witness:
  "list_all isToken ([''BR'', ''021''] @ [''365'', ''372'']) \<and> [''BR'', ''021''] \<noteq> []
   \<and> joinSpaces ([''BR'', ''021''] @ [''365'', ''372'']) = ''BR 021 365 372''
   \<and> normalizeCircuitId (joinSpaces ([''BR'', ''021''] @ [''365'', ''372'']))
       = concat [''BR'', ''021''] @ '','' @ ''365'' @ ''-'' @ ''372''
   \<and> CHR '','' \<in> set '' pon,1-25 ''
   \<and> normalizeCircuitId '' pon,1-25 '' = trim '' pon,1-25 ''
   \<and> trim '' pon,1-25 '' = ''pon,1-25''"
proof -
  have h1: "list_all isToken ([''BR'', ''021''] @ [''365'', ''372'']) \<and> [''BR'', ''021''] \<noteq> []"
    by (simp add: isToken_def isWhiteSpace_def)
  have j: "joinSpaces ([''BR'', ''021''] @ [''365'', ''372'']) = ''BR 021 365 372''" by simp
  have h2: "CHR '','' \<in> set '' pon,1-25 ''" by simp
  have t: "trim '' pon,1-25 '' = ''pon,1-25''" by code_simp
  note c1 = normalizeCircuitId_properties[THEN conjunct2, THEN conjunct2, THEN conjunct2,
      THEN conjunct1, rule_format, OF h1]
  note c2 = normalizeCircuitId_properties[THEN conjunct2, THEN conjunct2, THEN conjunct2,
      THEN conjunct2, THEN conjunct1, rule_format, OF h2]
  show ?thesis using h1 j h2 t c1 c2 by (intro conjI) simp_all
qed

section \<open>Binders and the display of a pair range\<close>

lemma ceil_div_25: "- ((- p) div 25) = (p + 24) div (25::int)"
proof -
  let ?r = "p mod 25"
  have b: "0 \<le> ?r" "?r < 25" by simp_all
  have l: "(- p) div 25 = (if ?r = 0 then - (p div 25) else - (p div 25) - 1)"
    by (rule zdiv_zminus1_eq_if) simp
  have "(p + 24) div 25 = p div 25 + 24 div 25 + (?r + 24 mod 25) div 25"
    by (rule div_add1_eq)
  then have k: "(p + 24) div 25 = p div 25 + (?r + 24) div 25" by simp
  have m: "(?r + 24) div 25 = (if ?r = 0 then 0 else 1)"
  proof (cases "?r = 0")
    case True
    then show ?thesis by simp
  next
    case False
    with b have r1: "0 \<le> ?r - 1" "?r - 1 < 25" by simp_all
    have "(?r + 24) div 25 = ((?r - 1) + 25) div 25" by simp
    also have "\<dots> = (?r - 1) div 25 + 1" using div_add_self2[of 25 "?r - 1"] by simp
    also have "(?r - 1) div 25 = 0" using r1 by (rule div_pos_pos_trivial)
    finally show ?thesis using False by simp
  qed
  show ?thesis unfolding l k m by simp
qed

lemma getBinderNumber_25: "getBinderNumber p 25 = (p + 24) div 25"
proof -
  have "\<lceil>real_of_int p / real_of_int 25\<rceil> = - ((- p) div 25)"
    by (rule ceiling_divide_eq_div)
  then show ?thesis by (simp add: getBinderNumber_def ceil_div_25)
qed

lemma jsRem_nonneg: "0 \<le> a \<Longrightarrow> 0 < b \<Longrightarrow> jsRem a b = a mod b"
  by (cases "a = 0") (simp_all add: jsRem_def)

lemma binder_position:
  assumes "1 \<le> p"
  shows "p = (getBinderNumber p 25 - 1) * 25 + positionInBinder p 25"
    and "1 \<le> positionInBinder p 25" and "positionInBinder p 25 \<le> 25"
proof -
  have "(p + 24) div 25 = ((p - 1) + 25) div 25" by simp
  also have "\<dots> = (p - 1) div 25 + 1" using div_add_self2[of 25 "p - 1"] by simp
  finally have b: "getBinderNumber p 25 - 1 = (p - 1) div 25" by (simp add: getBinderNumber_25)
  have "p - 1 = (p - 1) div 25 * 25 + (p - 1) mod 25" by simp
  then show "p = (getBinderNumber p 25 - 1) * 25 + positionInBinder p 25"
    unfolding b positionInBinder_def by linarith
  show "1 \<le> positionInBinder p 25" by (simp add: positionInBinder_def)
  have "(p - 1) mod 25 < 25" by simp
  then show "positionInBinder p 25 \<le> 25" unfolding positionInBinder_def by linarith
qed

lemma segments_cover:
  "sb \<le> eb \<Longrightarrow> lo \<le> 25 \<Longrightarrow> 1 \<le> hi \<Longrightarrow>
   concat (map (\<lambda>b. [(b - 1) * 25 + (if b = sb then lo else 1) ..
                       (b - 1) * 25 + (if b = eb then hi else 25)]) [sb..eb])
     = [(sb - 1) * 25 + lo .. (eb - 1) * 25 + hi]"
proof (induction "nat (eb - sb)" arbitrary: sb lo)
  case 0
  then have "sb = eb" by simp
  then show ?case by simp
next
  case (Suc n)
  then have lt: "sb < eb" by linarith
  let ?f = "\<lambda>b. [(b - 1) * 25 + (if b = sb then lo else 1) ..
                       (b - 1) * 25 + (if b = eb then hi else 25)]"
  let ?g = "\<lambda>b. [(b - 1) * 25 + (if b = sb + 1 then 1 else 1) ..
                       (b - 1) * 25 + (if b = eb then hi else 25)]"
  have up: "[sb..eb] = sb # [sb + 1..eb]" using lt by (simp add: upto_rec1)
  have e: "map ?f [sb + 1..eb] = map ?g [sb + 1..eb]" by (rule map_cong) auto
  have i: "concat (map ?g [sb + 1..eb]) = [(sb + 1 - 1) * 25 + 1 .. (eb - 1) * 25 + hi]"
    using Suc.hyps(2) lt Suc.prems(3) by (intro Suc.hyps(1)) auto
  have tl: "concat (map ?f [sb + 1..eb]) = [sb * 25 + 1 .. (eb - 1) * 25 + hi]"
    unfolding e using i by simp
  have hd: "?f sb = [(sb - 1) * 25 + lo .. sb * 25]" using lt by (simp add: algebra_simps)
  have "[(sb - 1) * 25 + lo .. (eb - 1) * 25 + hi]
          = [(sb - 1) * 25 + lo .. sb * 25] @ [sb * 25 + 1 .. (eb - 1) * 25 + hi]"
    using lt Suc.prems(2,3) by (intro upto_split2) auto
  then show ?case unfolding up using hd tl by simp
qed

lemma binderSegments_cover:
  assumes "1 \<le> ps" "ps \<le> pe"
  shows "concat (map (pairsOf 25) (binderSegments ps pe 25)) = [ps..pe]"
proof -
  let ?sb = "getBinderNumber ps 25" and ?eb = "getBinderNumber pe 25"
  let ?lo = "positionInBinder ps 25" and ?hi = "positionInBinder pe 25"
  have pe1: "1 \<le> pe" using assms by simp
  have le: "?sb \<le> ?eb" using assms(2) by (simp add: getBinderNumber_25 zdiv_mono1)
  have "concat (map (pairsOf 25) (binderSegments ps pe 25))
      = concat (map (\<lambda>b. [(b - 1) * 25 + (if b = ?sb then ?lo else 1) ..
                       (b - 1) * 25 + (if b = ?eb then ?hi else 25)]) [?sb..?eb])"
    by (simp add: binderSegments_def comp_def)
  also have "\<dots> = [(?sb - 1) * 25 + ?lo .. (?eb - 1) * 25 + ?hi]"
    using le binder_position(3)[OF assms(1)] binder_position(2)[OF pe1]
    by (rule segments_cover)
  also have "\<dots> = [ps..pe]"
    using binder_position(1)[OF assms(1)] binder_position(1)[OF pe1] by simp
  finally show ?thesis .
qed

lemma binderSegments_canon:
  assumes "getBinderNumber ps 25 < getBinderNumber pe 25"
  shows "binderSegments ps pe 25
     = BinderPairs (getBinderNumber ps 25) (positionInBinder ps 25) 25
       # map (\<lambda>r. BinderPairs r 1 25) [getBinderNumber ps 25 + 1 .. getBinderNumber pe 25 - 1]
       @ [BinderPairs (getBinderNumber pe 25) 1 (positionInBinder pe 25)]"
proof -
  let ?sb = "getBinderNumber ps 25" and ?eb = "getBinderNumber pe 25"
  let ?seg = "\<lambda>b. BinderPairs b (if b = ?sb then positionInBinder ps 25 else 1)
            (if b = ?eb then positionInBinder pe 25 else 25)"
  have "[?sb..?eb] = ?sb # [?sb + 1..?eb]" using assms by (simp add: upto_rec1)
  also have "[?sb + 1..?eb] = [?sb + 1..?eb - 1] @ [?eb]" using assms by (simp add: upto_rec2)
  finally have up: "[?sb..?eb] = ?sb # [?sb + 1..?eb - 1] @ [?eb]" .
  have mid: "map ?seg [?sb + 1..?eb - 1] = map (\<lambda>r. BinderPairs r 1 25) [?sb + 1..?eb - 1]"
    by (rule map_cong) auto
  have "binderSegments ps pe 25 = map ?seg [?sb..?eb]" by (simp add: binderSegments_def)
  also have "\<dots> = ?seg ?sb # map ?seg [?sb + 1..?eb - 1] @ [?seg ?eb]"
    unfolding up by simp
  finally show ?thesis using assms mid by simp
qed

lemma display_shape:
  assumes "1 \<le> ps" "ps \<le> pe"
  shows "getBinderAndPairDisplay ps pe 25 =
     (if getBinderNumber ps 25 \<noteq> getBinderNumber pe 25
         \<and> positionInBinder ps 25 = 1 \<and> positionInBinder pe 25 = 25
      then [BinderSpan (getBinderNumber ps 25) (getBinderNumber pe 25)]
      else binderSegments ps pe 25)"
proof -
  let ?sb = "getBinderNumber ps 25" and ?eb = "getBinderNumber pe 25"
  let ?sp = "positionInBinder ps 25" and ?ep = "positionInBinder pe 25"
  have pe1: "1 \<le> pe" using assms by simp
  have le: "?sb \<le> ?eb" using assms(2) by (simp add: getBinderNumber_25 zdiv_mono1)
  have rs: "jsRem (ps - 1) 25 + 1 = ?sp" using assms(1)
    by (simp add: jsRem_nonneg positionInBinder_def)
  have re: "jsRem (pe - 1) 25 + 1 = ?ep" using pe1
    by (simp add: jsRem_nonneg positionInBinder_def)
  show ?thesis
  proof (cases "?sb = ?eb")
    case True
    have "binderSegments ps pe 25 = [BinderPairs ?sb ?sp ?ep]"
      using True by (simp add: binderSegments_def)
    then show ?thesis using True
      unfolding getBinderAndPairDisplay_def Let_def rs re by simp
  next
    case False
    with le have lt: "?sb < ?eb" by simp
    note canon = binderSegments_canon[OF lt]
    have u1: "[?sb + 1..?eb] = [?sb + 1..?eb - 1] @ [?eb]" using lt by (simp add: upto_rec2)
    have u2: "[?sb..?eb - 1] = ?sb # [?sb + 1..?eb - 1]" using lt by (simp add: upto_rec1)
    have u3: "\<not> ?sb + 1 \<le> ?eb - 1 \<Longrightarrow> [?sb + 1..?eb - 1] = []" by simp
    consider (span) "?sp = 1" "?ep = 25" | (tt) "?sp \<noteq> 1" "?ep \<noteq> 25"
      | (tf) "?sp \<noteq> 1" "?ep = 25" | (ft) "?sp = 1" "?ep \<noteq> 25" by blast
    then show ?thesis
    proof cases
      case span
      then show ?thesis using False
        unfolding getBinderAndPairDisplay_def Let_def rs re by simp
    next
      case tt
      then show ?thesis using False lt u3
        unfolding getBinderAndPairDisplay_def Let_def rs re canon by auto
    next
      case tf
      then show ?thesis using False lt
        unfolding getBinderAndPairDisplay_def Let_def rs re canon by (simp add: u1)
    next
      case ft
      then show ?thesis using False lt
        unfolding getBinderAndPairDisplay_def Let_def rs re canon by (simp add: u2)
    qed
  qed
qed

text \<open>
  C8, as stated, asks for one segment for each binder that the range touches. A range of
  whole binders that spans more than one binder is displayed as a single span of binders
  instead: pairs 1 to 50 touch binders 1 and 2 and are displayed as \<open>B1 - B2\<close>.
\<close>

theorem getBinderAndPairDisplay_whole_binders_span:
  "getBinderAndPairDisplay 1 50 25 = [BinderSpan 1 2]
   \<and> getBinderNumber 1 25 = 1 \<and> getBinderNumber 50 25 = 2
   \<and> binderSegments 1 50 25 = [BinderPairs 1 1 25, BinderPairs 2 1 25]"
  by (simp add: getBinderAndPairDisplay_def binderSegments_def positionInBinder_def
      getBinderNumber_25 jsRem_def Let_def upto_rec1)


text \<open>
  C8, amended. With 25 pairs to the binder, a pair \<open>p\<close> from 1 on lies in binder
  \<open>ceil(p / 25)\<close> at position \<open>((p - 1) mod 25) + 1\<close> (the schema helper
  \<open>getPairPositionInBinder\<close> counts the position from 0). For a range from
  \<open>pairStart\<close> to \<open>pairEnd\<close> with \<open>1 \<le> pairStart \<le> pairEnd\<close> the display is the
  ordered sequence of one segment for each binder touched, which covers the pairs of the
  range in order with no gap and no overlap, except that a range of whole binders over more
  than one binder is displayed as the single span from its first to its last binder. The
  range 1 to 25 gives the one segment binder 1, 1 to 25; the range 20 to 30 gives binder 1,
  20 to 25, then binder 2, 1 to 5.
\<close>

theorem getBinderAndPairDisplay_segments:
  "(\<forall>p. 1 \<le> p \<longrightarrow>
      getBinderNumber p 25 = (p + 24) div 25
      \<and> jsRem (p - 1) 25 + 1 = positionInBinder p 25
      \<and> getPairPositionInBinder p 25 + 1 = positionInBinder p 25
      \<and> p = (getBinderNumber p 25 - 1) * 25 + positionInBinder p 25
      \<and> 1 \<le> positionInBinder p 25 \<and> positionInBinder p 25 \<le> 25)
   \<and> (\<forall>ps pe. 1 \<le> ps \<and> ps \<le> pe \<longrightarrow>
      getBinderAndPairDisplay ps pe 25 =
        (if getBinderNumber ps 25 \<noteq> getBinderNumber pe 25
            \<and> positionInBinder ps 25 = 1 \<and> positionInBinder pe 25 = 25
         then [BinderSpan (getBinderNumber ps 25) (getBinderNumber pe 25)]
         else binderSegments ps pe 25)
      \<and> concat (map (pairsOf 25) (binderSegments ps pe 25)) = [ps..pe]
      \<and> concat (map (pairsOf 25) (getBinderAndPairDisplay ps pe 25)) = [ps..pe])
   \<and> getBinderAndPairDisplay 1 25 25 = [BinderPairs 1 1 25]
   \<and> getBinderAndPairDisplay 20 30 25 = [BinderPairs 1 20 25, BinderPairs 2 1 5]"
proof (intro conjI allI impI)
  fix p :: int
  assume p: "1 \<le> p"
  show "getBinderNumber p 25 = (p + 24) div 25" by (rule getBinderNumber_25)
  show "jsRem (p - 1) 25 + 1 = positionInBinder p 25"
    using p by (simp add: jsRem_nonneg positionInBinder_def)
  show "getPairPositionInBinder p 25 + 1 = positionInBinder p 25"
    using p by (simp add: getPairPositionInBinder_def jsRem_nonneg positionInBinder_def)
  show "p = (getBinderNumber p 25 - 1) * 25 + positionInBinder p 25"
    using p by (rule binder_position(1))
  show "1 \<le> positionInBinder p 25" using p by (rule binder_position(2))
  show "positionInBinder p 25 \<le> 25" using p by (rule binder_position(3))
next
  fix ps pe :: int
  assume h: "1 \<le> ps \<and> ps \<le> pe"
  then have a: "1 \<le> ps" "ps \<le> pe" "1 \<le> pe" by simp_all
  show shape: "getBinderAndPairDisplay ps pe 25 =
        (if getBinderNumber ps 25 \<noteq> getBinderNumber pe 25
            \<and> positionInBinder ps 25 = 1 \<and> positionInBinder pe 25 = 25
         then [BinderSpan (getBinderNumber ps 25) (getBinderNumber pe 25)]
         else binderSegments ps pe 25)"
    using a(1,2) by (rule display_shape)
  show cover: "concat (map (pairsOf 25) (binderSegments ps pe 25)) = [ps..pe]"
    using a(1,2) by (rule binderSegments_cover)
  show "concat (map (pairsOf 25) (getBinderAndPairDisplay ps pe 25)) = [ps..pe]"
  proof (cases "getBinderNumber ps 25 \<noteq> getBinderNumber pe 25
            \<and> positionInBinder ps 25 = 1 \<and> positionInBinder pe 25 = 25")
    case True
    have "ps = (getBinderNumber ps 25 - 1) * 25 + 1"
      using binder_position(1)[OF a(1)] True by simp
    moreover have "pe = getBinderNumber pe 25 * 25"
      using binder_position(1)[OF a(3)] True by simp
    ultimately have "[(getBinderNumber ps 25 - 1) * 25 + 1 .. getBinderNumber pe 25 * 25] = [ps..pe]"
      by simp
    moreover have "getBinderAndPairDisplay ps pe 25
        = [BinderSpan (getBinderNumber ps 25) (getBinderNumber pe 25)]"
      unfolding shape using True by simp
    ultimately show ?thesis by simp
  next
    case False
    then have "getBinderAndPairDisplay ps pe 25 = binderSegments ps pe 25"
      unfolding shape by auto
    then show ?thesis using cover by simp
  qed
next
  show "getBinderAndPairDisplay 1 25 25 = [BinderPairs 1 1 25]"
    by (simp add: getBinderAndPairDisplay_def getBinderNumber_25 jsRem_def Let_def)
  show "getBinderAndPairDisplay 20 30 25 = [BinderPairs 1 20 25, BinderPairs 2 1 5]"
    by (simp add: getBinderAndPairDisplay_def getBinderNumber_25 jsRem_def Let_def)
qed

theorem getBinderAndPairDisplay_segments_witness:
  "(1::int) \<le> 20 \<and> (20::int) \<le> 80
   \<and> getBinderNumber 20 25 = 1 \<and> positionInBinder 20 25 = 20
   \<and> getBinderAndPairDisplay 20 80 25
       = [BinderPairs 1 20 25, BinderPairs 2 1 25, BinderPairs 3 1 25, BinderPairs 4 1 5]
   \<and> concat (map (pairsOf 25) (getBinderAndPairDisplay 20 80 25)) = [20..80]"
proof -
  have h1: "(1::int) \<le> 20" by simp
  have h2: "(1::int) \<le> 20 \<and> (20::int) \<le> 80" by simp
  note c1 = getBinderAndPairDisplay_segments[THEN conjunct1, rule_format, OF h1]
  note c2 = getBinderAndPairDisplay_segments[THEN conjunct2, THEN conjunct1, rule_format, OF h2]
  have b: "getBinderNumber 20 25 = 1" using c1 by simp
  have p: "positionInBinder 20 25 = 20" by (simp add: positionInBinder_def)
  have s: "binderSegments 20 80 25
       = [BinderPairs 1 20 25, BinderPairs 2 1 25, BinderPairs 3 1 25, BinderPairs 4 1 5]"
    by (simp add: binderSegments_def positionInBinder_def getBinderNumber_25 upto_rec1)
  have d: "getBinderAndPairDisplay 20 80 25
       = [BinderPairs 1 20 25, BinderPairs 2 1 25, BinderPairs 3 1 25, BinderPairs 4 1 5]"
    using c2 s b p by simp
  show ?thesis using h2 b p d c2 by simp
qed

section \<open>Matching a distribution circuit to a feed circuit\<close>

lemma feedMatches_cable:
  assumes "feedMatches allCables pre ds de f"
  shows "\<exists>cab. find (\<lambda>c. id_cable c = cableId f) allCables = Some cab
           \<and> id_cable cab = cableId f \<and> type_cable cab = ''Feed''"
proof (cases "find (\<lambda>c. id_cable c = cableId f) allCables")
  case None
  then show ?thesis using assms by (simp add: feedMatches_def)
next
  case (Some cab)
  then have "id_cable cab = cableId f" by (auto simp: find_Some_iff)
  moreover have "type_cable cab = ''Feed''"
    using assms Some by (auto simp: feedMatches_def split: if_splits)
  ultimately show ?thesis using Some by simp
qed

lemma handleCheckboxChange_strict:
  assumes "type_cable cable = ''Distribution''" "parseCircuitIdParts (circuitId d) = Inr dp"
  shows "handleCheckboxChange cable allCables allCircuits d True =
     (case findMatchingFeedCircuit allCables allCircuits (prefix dp) (rangeStart dp) (rangeEnd dp) of
        None \<Rightarrow> Inl (NoMatchingFeedCircuit (prefix dp) (rangeStart dp) (rangeEnd dp))
      | Some f \<Rightarrow>
          Inr (ToggleSpliced (id_circuit d)
                 (map_option id_cable (find (\<lambda>c. id_cable c = cableId f) allCables))
                 (Some (num_add (Num (fiberStart f))
                    (num_sub (rangeStart dp)
                       (parseInt (split_on CHR ''-'' (trim (split_on CHR '','' (circuitId f) ! 1)) ! 0)))))
                 (Some (num_add (Num (fiberStart f))
                    (num_sub (rangeEnd dp)
                       (parseInt (split_on CHR ''-'' (trim (split_on CHR '','' (circuitId f) ! 1)) ! 0)))))))"
proof -
  from strict_parse_lenient[OF assms(2)] obtain p r a b where
    h: "split_on CHR '','' (circuitId d) = [p, r]" "trim p = prefix dp"
       "split_on CHR ''-'' (trim r) = [a, b]"
       "parseInt a = rangeStart dp" "parseInt b = rangeEnd dp" by blast
  show ?thesis
    using assms(1) by (simp add: handleCheckboxChange_def Let_def h split: option.splits)
qed


lemma handleCheckboxChange_match:
  assumes "type_cable cable = ''Distribution''" "parseCircuitIdParts (circuitId d) = Inr dp"
    and m: "findMatchingFeedCircuit allCables allCircuits (prefix dp) (rangeStart dp) (rangeEnd dp)
          = Some f"
    and pf: "parseCircuitIdParts (circuitId f) = Inr fp"
  shows "handleCheckboxChange cable allCables allCircuits d True
        = Inr (ToggleSpliced (id_circuit d) (Some (cableId f))
                 (Some (num_add (Num (fiberStart f)) (num_sub (rangeStart dp) (rangeStart fp))))
                 (Some (num_add (Num (fiberStart f)) (num_sub (rangeEnd dp) (rangeStart fp)))))"
proof -
  from m have "feedMatches allCables (prefix dp) (rangeStart dp) (rangeEnd dp) f"
    by (auto simp: findMatchingFeedCircuit_def find_Some_iff)
  from feedMatches_cable[OF this] obtain cab where
    cab: "find (\<lambda>c. id_cable c = cableId f) allCables = Some cab" "id_cable cab = cableId f"
    by blast
  from strict_parse_lenient[OF pf] obtain p r a b where
    sp: "split_on CHR '','' (circuitId f) = [p, r]" "split_on CHR ''-'' (trim r) = [a, b]"
        "parseInt a = rangeStart fp" by blast
  show ?thesis
    unfolding handleCheckboxChange_strict[OF assms(1,2)] m
    by (simp add: sp cab)
qed

text \<open>
  C2. The callback of the search reads the identifier of a candidate with a split at the
  hyphen and \<open>parseInt\<close> with no radix, where the parser of identifiers asks for
  digits, a hyphen and digits and reads them in base 10. The feed circuit \<open>pon,0x10-20\<close>,
  which the add handler accepts, has an identifier that does not parse, so it does not
  qualify for the distribution circuit \<open>pon,17-18\<close>. The callback reads its start as 16 and
  accepts it: alone in the list it is selected and a request is sent where the handler
  should end on the toast that no matching feed circuit was found, and before the qualifying
  circuit \<open>pon,1-20\<close> it is selected in its place.
\<close>

theorem spliceMatcher_selects_unparsed_feed:
  "handleAddCircuit (exampleCable ''f1'' ''Feed'') [] ''pon,0x10-20''
     = Inr (CreateCircuit ''f1'' ''pon,0x10-20'')
   \<and> parseCircuitIdParts ''pon,17-18''
       = Inr \<lparr>prefix = ''pon'', rangeStart = Num 17, rangeEnd = Num 18\<rparr>
   \<and> parseCircuitIdParts ''pon,0x10-20'' = Inl (InvalidCircuitIdRangeFormat ''pon,0x10-20'')
   \<and> \<not> qualifies [exampleCable ''f1'' ''Feed'', exampleCable ''d1'' ''Distribution'']
         \<lparr>prefix = ''pon'', rangeStart = Num 17, rangeEnd = Num 18\<rparr>
         (exampleCircuit ''c1'' ''f1'' ''pon,0x10-20'' 1 5)
   \<and> \<not> qualifies [exampleCable ''f1'' ''Feed'', exampleCable ''d1'' ''Distribution'']
         \<lparr>prefix = ''pon'', rangeStart = Num 17, rangeEnd = Num 18\<rparr>
         (exampleCircuit ''c3'' ''d1'' ''pon,17-18'' 1 2)
   \<and> qualifies [exampleCable ''f1'' ''Feed'', exampleCable ''d1'' ''Distribution'']
         \<lparr>prefix = ''pon'', rangeStart = Num 17, rangeEnd = Num 18\<rparr>
         (exampleCircuit ''c2'' ''f1'' ''pon,1-20'' 6 25)
   \<and> handleCheckboxChange (exampleCable ''d1'' ''Distribution'')
        [exampleCable ''f1'' ''Feed'', exampleCable ''d1'' ''Distribution'']
        [exampleCircuit ''c1'' ''f1'' ''pon,0x10-20'' 1 5,
         exampleCircuit ''c3'' ''d1'' ''pon,17-18'' 1 2]
        (exampleCircuit ''c3'' ''d1'' ''pon,17-18'' 1 2) True
       = Inr (ToggleSpliced ''c3'' (Some ''f1'') (Some (Num 2)) (Some (Num 3)))
   \<and> findMatchingFeedCircuit [exampleCable ''f1'' ''Feed'', exampleCable ''d1'' ''Distribution'']
        [exampleCircuit ''c1'' ''f1'' ''pon,0x10-20'' 1 5,
         exampleCircuit ''c2'' ''f1'' ''pon,1-20'' 6 25,
         exampleCircuit ''c3'' ''d1'' ''pon,17-18'' 1 2]
        ''pon'' (Num 17) (Num 18)
       = Some (exampleCircuit ''c1'' ''f1'' ''pon,0x10-20'' 1 5)
   \<and> handleCheckboxChange (exampleCable ''d1'' ''Distribution'')
        [exampleCable ''f1'' ''Feed'', exampleCable ''d1'' ''Distribution'']
        [exampleCircuit ''c1'' ''f1'' ''pon,0x10-20'' 1 5,
         exampleCircuit ''c2'' ''f1'' ''pon,1-20'' 6 25,
         exampleCircuit ''c3'' ''d1'' ''pon,17-18'' 1 2]
        (exampleCircuit ''c3'' ''d1'' ''pon,17-18'' 1 2) True
       = Inr (ToggleSpliced ''c3'' (Some ''f1'') (Some (Num 2)) (Some (Num 3)))"
  by (intro conjI; code_simp)


text \<open>
  C3. When the search selects the feed circuit \<open>f\<close> for the distribution circuit
  \<open>d\<close>, the request sent for \<open>d\<close> carries the cable of \<open>f\<close> and the feed pair range
  from \<open>fiberStart f + (start of d - start of f)\<close> to
  \<open>fiberStart f + (end of d - start of f)\<close>, computed in the arithmetic of numbers, where
  \<open>fiberStart f\<close> is the stored physical start of \<open>f\<close> and the starts and ends are those
  of the identifiers. When the physical start and the two offsets are at most \<open>2 ^ 52\<close> in
  absolute value these are the integers of the formula, and, when no other circuit holds
  feed pairs that collide with them, the store records on \<open>d\<close>, and on no other circuit,
  the cable of \<open>f\<close>, this range and the spliced flag.
\<close>

theorem feedPairRange_from_physical_start:
  "(\<forall>(cable :: cable) (allCables :: cable list) (allCircuits :: circuit list) (d :: circuit)
      (dp :: circuit_id_parts) (f :: circuit) (fp :: circuit_id_parts).
      type_cable cable = ''Distribution''
      \<and> parseCircuitIdParts (circuitId d) = Inr dp
      \<and> findMatchingFeedCircuit allCables allCircuits (prefix dp) (rangeStart dp) (rangeEnd dp)
          = Some f
      \<and> parseCircuitIdParts (circuitId f) = Inr fp \<longrightarrow>
      handleCheckboxChange cable allCables allCircuits d True
        = Inr (ToggleSpliced (id_circuit d) (Some (cableId f))
                 (Some (num_add (Num (fiberStart f)) (num_sub (rangeStart dp) (rangeStart fp))))
                 (Some (num_add (Num (fiberStart f)) (num_sub (rangeEnd dp) (rangeStart fp))))))
   \<and> (\<forall>(cable :: cable) (allCables :: cable list) (allCircuits :: circuit list) (d :: circuit)
      (dp :: circuit_id_parts) (f :: circuit) (fp :: circuit_id_parts) ds de fs newId.
      type_cable cable = ''Distribution''
      \<and> parseCircuitIdParts (circuitId d) = Inr dp
      \<and> rangeStart dp = Num ds \<and> rangeEnd dp = Num de
      \<and> findMatchingFeedCircuit allCables allCircuits (prefix dp) (rangeStart dp) (rangeEnd dp)
          = Some f
      \<and> parseCircuitIdParts (circuitId f) = Inr fp \<and> rangeStart fp = Num fs
      \<and> \<bar>fiberStart f\<bar> \<le> 2 ^ 52 \<and> \<bar>ds - fs\<bar> \<le> 2 ^ 52 \<and> \<bar>de - fs\<bar> \<le> 2 ^ 52
      \<and> find (feedPairsCollide (id_circuit d) (cableId f)
                 (fiberStart f + (ds - fs)) (fiberStart f + (de - fs))) allCircuits = None
      \<longrightarrow>
      handleCheckboxChange cable allCables allCircuits d True
        = Inr (ToggleSpliced (id_circuit d) (Some (cableId f))
                 (Some (Num (fiberStart f + (ds - fs))))
                 (Some (Num (fiberStart f + (de - fs)))))
      \<and> mutate (storeApi newId) (handleCheckboxChange cable allCables allCircuits d True)
            allCircuits
          = map (\<lambda>c. if id_circuit c = id_circuit d
                      then c\<lparr>isSpliced := 1, feedCableId := Some (cableId f),
                             feedFiberStart := Some (fiberStart f + (ds - fs)),
                             feedFiberEnd := Some (fiberStart f + (de - fs))\<rparr>
                      else c) allCircuits)
   \<and> handleCheckboxChange (exampleCable ''d1'' ''Distribution'')
        [exampleCable ''f1'' ''Feed'', exampleCable ''d1'' ''Distribution'']
        [exampleCircuit ''c0'' ''f1'' ''x,1-4'' 1 4, exampleCircuit ''c1'' ''f1'' ''test,1-12'' 5 16,
         exampleCircuit ''c2'' ''d1'' ''test,3-4'' 1 2]
        (exampleCircuit ''c2'' ''d1'' ''test,3-4'' 1 2) True
       = Inr (ToggleSpliced ''c2'' (Some ''f1'') (Some (Num 7)) (Some (Num 8)))
   \<and> mutate (storeApi [])
        (handleCheckboxChange (exampleCable ''d1'' ''Distribution'')
           [exampleCable ''f1'' ''Feed'', exampleCable ''d1'' ''Distribution'']
           [exampleCircuit ''c0'' ''f1'' ''x,1-4'' 1 4, exampleCircuit ''c1'' ''f1'' ''test,1-12'' 5 16,
            exampleCircuit ''c2'' ''d1'' ''test,3-4'' 1 2]
           (exampleCircuit ''c2'' ''d1'' ''test,3-4'' 1 2) True)
        [exampleCircuit ''c0'' ''f1'' ''x,1-4'' 1 4, exampleCircuit ''c1'' ''f1'' ''test,1-12'' 5 16,
         exampleCircuit ''c2'' ''d1'' ''test,3-4'' 1 2]
       = [exampleCircuit ''c0'' ''f1'' ''x,1-4'' 1 4, exampleCircuit ''c1'' ''f1'' ''test,1-12'' 5 16,
          (exampleCircuit ''c2'' ''d1'' ''test,3-4'' 1 2)
            \<lparr>isSpliced := 1, feedCableId := Some ''f1'', feedFiberStart := Some 7,
             feedFiberEnd := Some 8\<rparr>]
   \<and> handleCheckboxChange (exampleCable ''d1'' ''Distribution'')
        [exampleCable ''f1'' ''Feed'', exampleCable ''d1'' ''Distribution'']
        [exampleCircuit ''c1'' ''f1'' ''p,1-9007199254740993'' 1 2,
         exampleCircuit ''c2'' ''d1'' ''p,9007199254740993-9007199254740993'' 1 1]
        (exampleCircuit ''c2'' ''d1'' ''p,9007199254740993-9007199254740993'' 1 1) True
       = Inr (ToggleSpliced ''c2'' (Some ''f1'') (Some (Num 9007199254740992))
                (Some (Num 9007199254740992)))"
proof (intro conjI allI impI)
  fix cable :: cable and allCables :: "cable list" and allCircuits :: "circuit list"
    and d :: circuit and dp :: circuit_id_parts and f :: circuit and fp :: circuit_id_parts
  assume h: "type_cable cable = ''Distribution''
      \<and> parseCircuitIdParts (circuitId d) = Inr dp
      \<and> findMatchingFeedCircuit allCables allCircuits (prefix dp) (rangeStart dp) (rangeEnd dp)
          = Some f
      \<and> parseCircuitIdParts (circuitId f) = Inr fp"
  then have t: "type_cable cable = ''Distribution''"
    and pd: "parseCircuitIdParts (circuitId d) = Inr dp"
    and m: "findMatchingFeedCircuit allCables allCircuits (prefix dp) (rangeStart dp) (rangeEnd dp)
          = Some f"
    and pf: "parseCircuitIdParts (circuitId f) = Inr fp"
    by blast+
  show "handleCheckboxChange cable allCables allCircuits d True
        = Inr (ToggleSpliced (id_circuit d) (Some (cableId f))
                 (Some (num_add (Num (fiberStart f)) (num_sub (rangeStart dp) (rangeStart fp))))
                 (Some (num_add (Num (fiberStart f)) (num_sub (rangeEnd dp) (rangeStart fp)))))"
    using t pd m pf by (rule handleCheckboxChange_match)
next
  fix cable :: cable and allCables :: "cable list" and allCircuits :: "circuit list"
    and d :: circuit and dp :: circuit_id_parts and f :: circuit and fp :: circuit_id_parts
    and ds de fs :: int and newId :: string
  assume h: "type_cable cable = ''Distribution''
      \<and> parseCircuitIdParts (circuitId d) = Inr dp
      \<and> rangeStart dp = Num ds \<and> rangeEnd dp = Num de
      \<and> findMatchingFeedCircuit allCables allCircuits (prefix dp) (rangeStart dp) (rangeEnd dp)
          = Some f
      \<and> parseCircuitIdParts (circuitId f) = Inr fp \<and> rangeStart fp = Num fs
      \<and> \<bar>fiberStart f\<bar> \<le> 2 ^ 52 \<and> \<bar>ds - fs\<bar> \<le> 2 ^ 52 \<and> \<bar>de - fs\<bar> \<le> 2 ^ 52
      \<and> find (feedPairsCollide (id_circuit d) (cableId f)
                 (fiberStart f + (ds - fs)) (fiberStart f + (de - fs))) allCircuits = None"
  then have t: "type_cable cable = ''Distribution''"
    and pd: "parseCircuitIdParts (circuitId d) = Inr dp"
    and n: "rangeStart dp = Num ds" "rangeEnd dp = Num de"
    and m: "findMatchingFeedCircuit allCables allCircuits (prefix dp) (rangeStart dp) (rangeEnd dp)
          = Some f"
    and pf: "parseCircuitIdParts (circuitId f) = Inr fp" and fs: "rangeStart fp = Num fs"
    and b: "\<bar>fiberStart f\<bar> \<le> 2 ^ 52" "\<bar>ds - fs\<bar> \<le> 2 ^ 52" "\<bar>de - fs\<bar> \<le> 2 ^ 52"
    and nc: "find (feedPairsCollide (id_circuit d) (cableId f)
                 (fiberStart f + (ds - fs)) (fiberStart f + (de - fs))) allCircuits = None"
    by blast+
  have p: "(2::int) ^ 53 = 2 ^ 52 + 2 ^ 52" by simp
  have o1: "num_sub (Num ds) (Num fs) = Num (ds - fs)"
    using b(2) by (intro num_sub_exact) (simp only: p)
  have o2: "num_sub (Num de) (Num fs) = Num (de - fs)"
    using b(3) by (intro num_sub_exact) (simp only: p)
  have "\<bar>fiberStart f + (ds - fs)\<bar> \<le> 2 ^ 53" unfolding p using b(1,2) by linarith
  then have a1: "num_add (Num (fiberStart f)) (Num (ds - fs)) = Num (fiberStart f + (ds - fs))"
    by (rule num_add_exact)
  have "\<bar>fiberStart f + (de - fs)\<bar> \<le> 2 ^ 53" unfolding p using b(1,3) by linarith
  then have a2: "num_add (Num (fiberStart f)) (Num (de - fs)) = Num (fiberStart f + (de - fs))"
    by (rule num_add_exact)
  show r: "handleCheckboxChange cable allCables allCircuits d True
        = Inr (ToggleSpliced (id_circuit d) (Some (cableId f))
                 (Some (Num (fiberStart f + (ds - fs))))
                 (Some (Num (fiberStart f + (de - fs)))))"
    unfolding handleCheckboxChange_match[OF t pd m pf] n fs o1 o2 a1 a2 ..
  show "mutate (storeApi newId) (handleCheckboxChange cable allCables allCircuits d True)
            allCircuits
          = map (\<lambda>c. if id_circuit c = id_circuit d
                      then c\<lparr>isSpliced := 1, feedCableId := Some (cableId f),
                             feedFiberStart := Some (fiberStart f + (ds - fs)),
                             feedFiberEnd := Some (fiberStart f + (de - fs))\<rparr>
                      else c) allCircuits"
    unfolding r by (simp add: mutate_def storeApi_def toggleSpliced_def nc)
qed (code_simp+)

theorem feedPairRange_from_physical_start_witness:
  "findMatchingFeedCircuit [exampleCable ''f1'' ''Feed'', exampleCable ''d1'' ''Distribution'']
        [exampleCircuit ''c0'' ''f1'' ''x,1-4'' 1 4, exampleCircuit ''c1'' ''f1'' ''test,1-12'' 5 16,
         exampleCircuit ''c2'' ''d1'' ''test,3-4'' 1 2] ''test'' (Num 3) (Num 4)
      = Some (exampleCircuit ''c1'' ''f1'' ''test,1-12'' 5 16)
   \<and> find (feedPairsCollide ''c2'' ''f1'' (5 + (3 - 1)) (5 + (4 - 1)))
        [exampleCircuit ''c0'' ''f1'' ''x,1-4'' 1 4, exampleCircuit ''c1'' ''f1'' ''test,1-12'' 5 16,
         exampleCircuit ''c2'' ''d1'' ''test,3-4'' 1 2] = None
   \<and> handleCheckboxChange (exampleCable ''d1'' ''Distribution'')
        [exampleCable ''f1'' ''Feed'', exampleCable ''d1'' ''Distribution'']
        [exampleCircuit ''c0'' ''f1'' ''x,1-4'' 1 4, exampleCircuit ''c1'' ''f1'' ''test,1-12'' 5 16,
         exampleCircuit ''c2'' ''d1'' ''test,3-4'' 1 2]
        (exampleCircuit ''c2'' ''d1'' ''test,3-4'' 1 2) True
       = Inr (ToggleSpliced ''c2'' (Some ''f1'')
                (Some (num_add (Num 5) (num_sub (Num 3) (Num 1))))
                (Some (num_add (Num 5) (num_sub (Num 4) (Num 1)))))
   \<and> handleCheckboxChange (exampleCable ''d1'' ''Distribution'')
        [exampleCable ''f1'' ''Feed'', exampleCable ''d1'' ''Distribution'']
        [exampleCircuit ''c0'' ''f1'' ''x,1-4'' 1 4, exampleCircuit ''c1'' ''f1'' ''test,1-12'' 5 16,
         exampleCircuit ''c2'' ''d1'' ''test,3-4'' 1 2]
        (exampleCircuit ''c2'' ''d1'' ''test,3-4'' 1 2) True
       = Inr (ToggleSpliced ''c2'' (Some ''f1'') (Some (Num (5 + (3 - 1)))) (Some (Num (5 + (4 - 1)))))
   \<and> mutate (storeApi [])
        (handleCheckboxChange (exampleCable ''d1'' ''Distribution'')
           [exampleCable ''f1'' ''Feed'', exampleCable ''d1'' ''Distribution'']
           [exampleCircuit ''c0'' ''f1'' ''x,1-4'' 1 4, exampleCircuit ''c1'' ''f1'' ''test,1-12'' 5 16,
            exampleCircuit ''c2'' ''d1'' ''test,3-4'' 1 2]
           (exampleCircuit ''c2'' ''d1'' ''test,3-4'' 1 2) True)
        [exampleCircuit ''c0'' ''f1'' ''x,1-4'' 1 4, exampleCircuit ''c1'' ''f1'' ''test,1-12'' 5 16,
         exampleCircuit ''c2'' ''d1'' ''test,3-4'' 1 2]
       = [exampleCircuit ''c0'' ''f1'' ''x,1-4'' 1 4, exampleCircuit ''c1'' ''f1'' ''test,1-12'' 5 16,
          (exampleCircuit ''c2'' ''d1'' ''test,3-4'' 1 2)
            \<lparr>isSpliced := 1, feedCableId := Some ''f1'', feedFiberStart := Some (5 + (3 - 1)),
             feedFiberEnd := Some (5 + (4 - 1))\<rparr>]"
proof -
  let ?cables = "[exampleCable ''f1'' ''Feed'', exampleCable ''d1'' ''Distribution'']"
  let ?c0 = "exampleCircuit ''c0'' ''f1'' ''x,1-4'' 1 4"
  let ?c1 = "exampleCircuit ''c1'' ''f1'' ''test,1-12'' 5 16"
  let ?c2 = "exampleCircuit ''c2'' ''d1'' ''test,3-4'' 1 2"
  let ?dp = "\<lparr>prefix = ''test'', rangeStart = Num 3, rangeEnd = Num 4\<rparr>"
  let ?fp = "\<lparr>prefix = ''test'', rangeStart = Num 1, rangeEnd = Num 12\<rparr>"
  have t: "type_cable (exampleCable ''d1'' ''Distribution'') = ''Distribution''"
    by (simp add: exampleCable_def)
  have pd: "parseCircuitIdParts (circuitId ?c2) = Inr ?dp" by code_simp
  have pf: "parseCircuitIdParts (circuitId ?c1) = Inr ?fp" by code_simp
  have m0: "findMatchingFeedCircuit ?cables [?c0, ?c1, ?c2] ''test'' (Num 3) (Num 4) = Some ?c1"
    by code_simp
  then have m: "findMatchingFeedCircuit ?cables [?c0, ?c1, ?c2] (prefix ?dp) (rangeStart ?dp)
      (rangeEnd ?dp) = Some ?c1" by simp
  have n: "rangeStart ?dp = Num 3" "rangeEnd ?dp = Num 4" "rangeStart ?fp = Num 1" by simp_all
  have sel: "id_circuit ?c2 = ''c2''" "cableId ?c1 = ''f1''" "fiberStart ?c1 = 5"
    by (simp_all add: exampleCircuit_def)
  have b: "\<bar>fiberStart ?c1\<bar> \<le> 2 ^ 52" "\<bar>(3::int) - 1\<bar> \<le> 2 ^ 52" "\<bar>(4::int) - 1\<bar> \<le> 2 ^ 52"
    unfolding sel by simp_all
  have nc0: "find (feedPairsCollide ''c2'' ''f1'' (5 + (3 - 1)) (5 + (4 - 1))) [?c0, ?c1, ?c2] = None"
    by code_simp
  then have nc: "find (feedPairsCollide (id_circuit ?c2) (cableId ?c1)
      (fiberStart ?c1 + (3 - 1)) (fiberStart ?c1 + (4 - 1))) [?c0, ?c1, ?c2] = None"
    unfolding sel .
  note r1 = feedPairRange_from_physical_start[THEN conjunct1, THEN spec, THEN spec, THEN spec,
      THEN spec, THEN spec, THEN spec, THEN spec, THEN mp,
      OF conjI[OF t conjI[OF pd conjI[OF m pf]]], unfolded sel n]
  note r2 = feedPairRange_from_physical_start[THEN conjunct2, THEN conjunct1,
      THEN spec, THEN spec, THEN spec, THEN spec, THEN spec, THEN spec, THEN spec,
      THEN spec, THEN spec, THEN spec, THEN spec, THEN mp,
      OF conjI[OF t conjI[OF pd conjI[OF n(1) conjI[OF n(2) conjI[OF m conjI[OF pf
        conjI[OF n(3) conjI[OF b(1) conjI[OF b(2) conjI[OF b(3) nc]]]]]]]]]],
      of "[]", unfolded sel]
  note r2a = r2[THEN conjunct1]
  note r2b = r2[THEN conjunct2]
  have mp: "map (\<lambda>c. if id_circuit c = ''c2''
                      then c\<lparr>isSpliced := 1, feedCableId := Some ''f1'',
                             feedFiberStart := Some (5 + (3 - 1)),
                             feedFiberEnd := Some (5 + (4 - 1))\<rparr>
                      else c) [?c0, ?c1, ?c2]
      = [?c0, ?c1, ?c2\<lparr>isSpliced := 1, feedCableId := Some ''f1'',
           feedFiberStart := Some (5 + (3 - 1)), feedFiberEnd := Some (5 + (4 - 1))\<rparr>]"
    by (simp add: exampleCircuit_def)
  show ?thesis
    apply (intro conjI)
        apply (rule m0)
       apply (rule nc0)
      apply (rule r1)
     apply (rule r2a)
    apply (rule trans[OF r2b mp])
    done
qed

section \<open>Trimming and parsing\<close>

lemma trim_LR: "trim s = trimRight (trimLeft s)"
  by (simp add: trim_def trimLeft_def trimRight_def)

lemma trimLeft_idem: "trimLeft (trimLeft s) = trimLeft s"
  by (simp add: trimLeft_def dropWhile_idem)

lemma trimRight_idem: "trimRight (trimRight s) = trimRight s"
  by (simp add: trimRight_def dropWhile_idem)

lemma trimLeft_Cons: "\<not> isWhiteSpace c \<Longrightarrow> trimLeft (c # s) = c # s"
  by (simp add: trimLeft_def)

lemma trimRight_Cons: "\<not> isWhiteSpace c \<Longrightarrow> trimRight (c # s) = c # trimRight s"
  by (simp add: trimRight_def dropWhile_append)

lemma trimLeft_append_Cons:
  "\<not> isWhiteSpace c \<Longrightarrow> trimLeft (p @ c # r) = trimLeft p @ c # r"
  by (simp add: trimLeft_def dropWhile_append)

lemma trimRight_append_Cons:
  "\<not> isWhiteSpace c \<Longrightarrow> trimRight (p @ c # r) = p @ c # trimRight r"
  by (simp add: trimRight_def dropWhile_append)

lemma trimLeft_spaces: "list_all isWhiteSpace s \<Longrightarrow> trimLeft s = []"
  by (simp add: trimLeft_def list_all_iff)

lemma trimRight_spaces: "list_all isWhiteSpace s \<Longrightarrow> trimRight s = []"
  by (simp add: trimRight_def list_all_iff)

lemma trimLeft_append_spaces: "list_all isWhiteSpace w \<Longrightarrow> trimLeft (w @ s) = trimLeft s"
  by (simp add: trimLeft_def dropWhile_append list_all_iff)

lemma trim_commute: "trimLeft (trimRight s) = trimRight (trimLeft s)"
proof (cases "list_all isWhiteSpace s")
  case True
  then show ?thesis by (simp add: trimLeft_spaces trimRight_spaces)
next
  case False
  let ?w = "takeWhile isWhiteSpace s"
  have w: "list_all isWhiteSpace ?w" by (simp add: list_all_iff) (meson set_takeWhileD)
  have "dropWhile isWhiteSpace s \<noteq> []" using False by (simp add: list_all_iff)
  then obtain c r where d: "dropWhile isWhiteSpace s = c # r" by (cases "dropWhile isWhiteSpace s") auto
  have c: "\<not> isWhiteSpace c" using hd_dropWhile[of isWhiteSpace s] d by simp
  have s: "s = ?w @ c # r" using d takeWhile_dropWhile_id[of isWhiteSpace s] by simp
  have l: "trimLeft s = c # r" using d by (simp add: trimLeft_def)
  have "trimRight s = ?w @ c # trimRight r"
    using trimRight_append_Cons[OF c, of ?w r] s by simp
  then have "trimLeft (trimRight s) = trimLeft (c # trimRight r)"
    using w by (simp add: trimLeft_append_spaces)
  also have "\<dots> = c # trimRight r" using c by (rule trimLeft_Cons)
  also have "\<dots> = trimRight (c # r)" using c by (simp add: trimRight_Cons)
  finally show ?thesis using l by simp
qed

lemma trim_trimLeft: "trim (trimLeft s) = trim s"
  by (simp add: trim_LR trimLeft_idem)

lemma trim_trimRight: "trim (trimRight s) = trim s"
  by (simp add: trim_LR trim_commute trimRight_idem)

lemma filter_dropWhile:
  "(\<And>x. Q x \<Longrightarrow> \<not> P x) \<Longrightarrow> filter P (dropWhile Q xs) = filter P xs"
  by (induction xs) auto

lemma commas_trim: "filter (\<lambda>x. x = CHR '','') (trim s) = filter (\<lambda>x. x = CHR '','') s"
proof -
  have q: "\<And>x. isWhiteSpace x \<Longrightarrow> \<not> x = CHR '',''" using comma_not_space by auto
  have "filter (\<lambda>x. x = CHR '','') (dropWhile isWhiteSpace (rev (dropWhile isWhiteSpace s)))
      = filter (\<lambda>x. x = CHR '','') (rev (dropWhile isWhiteSpace s))"
    using q by (rule filter_dropWhile)
  moreover have "filter (\<lambda>x. x = CHR '','') (dropWhile isWhiteSpace s)
      = filter (\<lambda>x. x = CHR '','') s" using q by (rule filter_dropWhile)
  ultimately show ?thesis by (simp add: trim_def rev_filter[symmetric])
qed

lemma set_trimLeft: "set (trimLeft s) \<subseteq> set s"
  unfolding trimLeft_def by (meson set_dropWhileD subsetI)

lemma set_trimRight: "set (trimRight s) \<subseteq> set s"
  unfolding trimRight_def using set_dropWhileD by fastforce

lemma split_trim:
  assumes "split_on CHR '','' s = [p, r]"
  shows "split_on CHR '','' (trim s) = [trimLeft p, trimRight r]"
proof -
  from assms have s: "s = p @ CHR '','' # r" and np: "CHR '','' \<notin> set p" and nr: "CHR '','' \<notin> set r"
    by (simp_all add: split_on_two_iff)
  have "trim s = trimRight (trimLeft p @ CHR '','' # r)"
    unfolding trim_LR s by (simp add: trimLeft_append_Cons comma_not_space)
  also have "\<dots> = trimLeft p @ CHR '','' # trimRight r"
    by (simp add: trimRight_append_Cons comma_not_space)
  finally have t: "trim s = trimLeft p @ CHR '','' # trimRight r" .
  have "CHR '','' \<notin> set (trimLeft p)" using np set_trimLeft by blast
  moreover have "CHR '','' \<notin> set (trimRight r)" using nr set_trimRight by blast
  ultimately show ?thesis unfolding t by (simp add: split_on_two_iff)
qed

lemma parse_trim: "parseCircuitIdParts (trim s) = Inr parts \<longleftrightarrow> parseCircuitIdParts s = Inr parts"
proof (cases "length (split_on CHR '','' s) = 2")
  case True
  from split_on_two[OF True] obtain p r where sp: "split_on CHR '','' s = [p, r]" by blast
  note st = split_trim[OF sp]
  show ?thesis
    by (simp add: parseCircuitIdParts_def Let_def sp st trim_trimLeft trim_trimRight
        split: option.splits)
next
  case False
  then have "length (split_on CHR '','' (trim s)) \<noteq> 2"
    by (simp add: length_split_on commas_trim)
  then show ?thesis using False by (simp add: parseCircuitIdParts_def Let_def)
qed

lemma overlap_trim: "circuitIdsOverlap (trim s) t = circuitIdsOverlap s t"
proof (cases "parseCircuitIdParts s")
  case (Inl e)
  then have "\<And>parts. parseCircuitIdParts (trim s) \<noteq> Inr parts" using parse_trim[of s] by simp
  then obtain e' where "parseCircuitIdParts (trim s) = Inl e'"
    by (cases "parseCircuitIdParts (trim s)") auto
  then show ?thesis using Inl by (simp add: circuitIdsOverlap_def)
next
  case (Inr parts)
  then have "parseCircuitIdParts (trim s) = Inr parts" by (simp add: parse_trim)
  then show ?thesis using Inr by (simp add: circuitIdsOverlap_def)
qed

lemma overlap_sym: "circuitIdsOverlap a b = circuitIdsOverlap b a"
  by (auto simp: circuitIdsOverlap_def split: sum.splits)

section \<open>Validation of a new or edited identifier\<close>

lemma checkOverlap_Inr:
  assumes "checkOverlap nid np ns ne excl cs = Inr u" "c \<in> set cs"
    "\<not> (case excl of None \<Rightarrow> False | Some e \<Rightarrow> e \<noteq> [] \<and> id_circuit c = e)"
    "parseCircuitIdParts (circuitId c) = Inr cp"
  shows "\<not> (np = prefix cp \<and> num_le ns (rangeEnd cp) \<and> num_le (rangeStart cp) ne)"
  using assms(1,2)
proof (induction cs)
  case Nil
  then show ?case by simp
next
  case (Cons x xs)
  show ?case
  proof (cases "x = c")
    case True
    from strict_parse_lenient[OF assms(4)] obtain p r a b where
      h: "split_on CHR '','' (circuitId c) = [p, r]" "trim p = prefix cp"
         "split_on CHR ''-'' (trim r) = [a, b]"
         "parseInt a = rangeStart cp" "parseInt b = rangeEnd cp"
         "rangeStart cp = roundToDouble (digitsValue a)"
         "rangeEnd cp = roundToDouble (digitsValue b)" by blast
    from Cons.prems(1) True assms(3) show ?thesis
      by (simp add: Let_def h roundToDouble_not_NaN split: if_splits)
  next
    case False
    with Cons.prems(2) have "c \<in> set xs" by simp
    moreover have "checkOverlap nid np ns ne excl xs = Inr u"
      using Cons.prems(1) by (simp add: Let_def split: if_splits)
    ultimately show ?thesis by (rule Cons.IH[rotated])
  qed
qed

lemma validation_no_overlap:
  assumes "parseAndCheckCircuitId circuits nid excl = Inr u" "c \<in> set circuits"
    "\<not> (case excl of None \<Rightarrow> False | Some e \<Rightarrow> e \<noteq> [] \<and> id_circuit c = e)"
  shows "\<not> circuitIdsOverlap nid (circuitId c)"
proof
  assume ov: "circuitIdsOverlap nid (circuitId c)"
  then obtain np cp where pn: "parseCircuitIdParts nid = Inr np"
    and pc: "parseCircuitIdParts (circuitId c) = Inr cp"
    and o: "prefix np = prefix cp" "num_le (rangeStart np) (rangeEnd cp)"
      "num_le (rangeStart cp) (rangeEnd np)"
    by (auto simp: circuitIdsOverlap_def split: sum.splits if_splits)
  from strict_parse_lenient[OF pn] obtain p r a b where
    h: "split_on CHR '','' nid = [p, r]" "trim p = prefix np"
       "split_on CHR ''-'' (trim r) = [a, b]"
       "parseInt a = rangeStart np" "parseInt b = rangeEnd np"
       "rangeStart np = roundToDouble (digitsValue a)"
       "rangeEnd np = roundToDouble (digitsValue b)" by blast
  have "parseAndCheckCircuitId circuits nid excl
      = checkOverlap nid (prefix np) (rangeStart np) (rangeEnd np) excl circuits"
    by (simp add: parseAndCheckCircuitId_def Let_def h roundToDouble_not_NaN)
  with assms(1) have "checkOverlap nid (prefix np) (rangeStart np) (rangeEnd np) excl circuits = Inr u"
    by simp
  from checkOverlap_Inr[OF this assms(2,3) pc] o show False by simp
qed

lemma pairwise_snoc:
  "pairwiseNonOverlapping xs \<Longrightarrow> \<forall>x\<in>set xs. \<not> circuitIdsOverlap x v \<Longrightarrow>
   pairwiseNonOverlapping (xs @ [v])"
  by (induction xs) (auto simp: list_all_iff)

lemma pairwise_update:
  assumes "distinct (map id_circuit cs)" "pairwiseNonOverlapping (map circuitId cs)"
    "\<forall>c\<in>set cs. id_circuit c \<noteq> cid \<longrightarrow> \<not> circuitIdsOverlap v (circuitId c)"
  shows "pairwiseNonOverlapping (map (\<lambda>c. if id_circuit c = cid then v else circuitId c) cs)"
  using assms
proof (induction cs)
  case Nil
  then show ?case by simp
next
  case (Cons c cs)
  let ?g = "\<lambda>c. if id_circuit c = cid then v else circuitId c"
  have ih: "pairwiseNonOverlapping (map ?g cs)" using Cons by simp
  have no: "\<not> circuitIdsOverlap (?g c) (?g c')" if c': "c' \<in> set cs" for c'
  proof (cases "id_circuit c = cid")
    case True
    have "id_circuit c \<notin> id_circuit ` set cs" using Cons.prems(1) by simp
    moreover have "id_circuit c' \<in> id_circuit ` set cs" using c' by (rule imageI)
    ultimately have "id_circuit c' \<noteq> cid" using True by metis
    then show ?thesis using True Cons.prems(3) c' by simp
  next
    case False
    show ?thesis
    proof (cases "id_circuit c' = cid")
      case True
      have "\<not> circuitIdsOverlap v (circuitId c)" using Cons.prems(3) False by simp
      then show ?thesis using True False by (simp add: overlap_sym[of "circuitId c" v])
    next
      case nc: False
      have "\<not> circuitIdsOverlap (circuitId c) (circuitId c')"
        using Cons.prems(2) c' by (auto simp: list_all_iff)
      then show ?thesis using False nc by simp
    qed
  qed
  have "\<forall>y\<in>set (map ?g cs). \<not> circuitIdsOverlap (?g c) y"
  proof
    fix y
    assume "y \<in> set (map ?g cs)"
    then obtain c' where "c' \<in> set cs" "y = ?g c'" by (auto simp del: if_split)
    then show "\<not> circuitIdsOverlap (?g c) y" using no by blast
  qed
  then have "list_all (\<lambda>y. \<not> circuitIdsOverlap (?g c) y) (map ?g cs)"
    unfolding list_all_iff .
  then show ?case using ih unfolding list.map pairwiseNonOverlapping.simps by blast
qed


text \<open>
  C7. When the identifier entered for a new circuit overlaps the identifier of a circuit of
  the cable, or the identifier entered in an edit overlaps the identifier of another circuit
  of the cable, the handler ends on a toast and sends no request, so nothing is created,
  changed or allocated. A request is sent only for an identifier that overlaps none of the
  other circuits, so identifiers that are pairwise non-overlapping stay so when the new
  identifier is added or replaces the edited one.
\<close>

theorem overlap_rejected_before_allocation:
  "(\<forall>(cable :: cable) (circuits :: circuit list) inp c.
      c \<in> set circuits \<and> circuitIdsOverlap inp (circuitId c) \<longrightarrow>
      (\<exists>t. handleAddCircuit cable circuits inp = Inl t)
      \<and> (\<forall>(api :: mutation \<Rightarrow> 's \<Rightarrow> 'e + 's) store.
            mutate api (handleAddCircuit cable circuits inp) store = store))
   \<and> (\<forall>(circuits :: circuit list) inp cid c.
      c \<in> set circuits \<and> id_circuit c \<noteq> cid \<and> circuitIdsOverlap inp (circuitId c) \<longrightarrow>
      (\<exists>t. handleSaveEdit circuits inp cid = Inl t)
      \<and> (\<forall>(api :: mutation \<Rightarrow> 's \<Rightarrow> 'e + 's) store.
            mutate api (handleSaveEdit circuits inp cid) store = store))
   \<and> (\<forall>(cable :: cable) (circuits :: circuit list) inp m.
      pairwiseNonOverlapping (map circuitId circuits)
      \<and> handleAddCircuit cable circuits inp = Inr m \<longrightarrow>
      m = CreateCircuit (id_cable cable) (trim inp)
      \<and> pairwiseNonOverlapping (map circuitId circuits @ [trim inp]))
   \<and> (\<forall>(circuits :: circuit list) inp cid m.
      distinct (map id_circuit circuits) \<and> pairwiseNonOverlapping (map circuitId circuits)
      \<and> handleSaveEdit circuits inp cid = Inr m \<longrightarrow>
      m = UpdateCircuitId cid inp
      \<and> pairwiseNonOverlapping
           (map (\<lambda>c. if id_circuit c = cid then inp else circuitId c) circuits))
   \<and> handleAddCircuit (exampleCable ''d1'' ''Distribution'')
        [exampleCircuit ''c1'' ''d1'' ''pon,9-20'' 1 12] ''pon,1-9 ''
       = Inl (InvalidCircuitId (OverlapsExisting ''pon,1-9'' ''pon,9-20''))
   \<and> handleSaveEdit [exampleCircuit ''c1'' ''d1'' ''pon,9-20'' 1 12,
         exampleCircuit ''c2'' ''d1'' ''pon,1-8'' 13 20] ''pon,1-9'' ''c2''
       = Inl (InvalidCircuitId (OverlapsExisting ''pon,1-9'' ''pon,9-20''))
   \<and> handleSaveEdit [exampleCircuit ''c1'' ''d1'' ''pon,9-20'' 1 12,
         exampleCircuit ''c2'' ''d1'' ''pon,1-8'' 13 20] ''pon,2-8'' ''c2''
       = Inr (UpdateCircuitId ''c2'' ''pon,2-8'')"
proof (intro conjI allI impI)
  fix cable :: cable and circuits :: "circuit list" and inp c
  assume h: "c \<in> set circuits \<and> circuitIdsOverlap inp (circuitId c)"
  then have ov: "circuitIdsOverlap (trim inp) (circuitId c)" by (simp add: overlap_trim)
  have "\<And>u. parseAndCheckCircuitId circuits (trim inp) None \<noteq> Inr u"
    using validation_no_overlap[of circuits "trim inp" None _ c] h ov by auto
  then obtain e where "parseAndCheckCircuitId circuits (trim inp) None = Inl e"
    by (cases "parseAndCheckCircuitId circuits (trim inp) None") auto
  then show r: "\<exists>t. handleAddCircuit cable circuits inp = Inl t"
    by (simp add: handleAddCircuit_def)
  fix api :: "mutation \<Rightarrow> 's \<Rightarrow> 'e + 's" and store
  from r show "mutate api (handleAddCircuit cable circuits inp) store = store"
    by (auto simp: mutate_def)
next
  fix circuits :: "circuit list" and inp cid c
  assume h: "c \<in> set circuits \<and> id_circuit c \<noteq> cid \<and> circuitIdsOverlap inp (circuitId c)"
  then have ov: "circuitIdsOverlap (trim inp) (circuitId c)" by (simp add: overlap_trim)
  have "\<And>u. parseAndCheckCircuitId circuits (trim inp) (Some cid) \<noteq> Inr u"
    using validation_no_overlap[of circuits "trim inp" "Some cid" _ c] h ov by auto
  then obtain e where "parseAndCheckCircuitId circuits (trim inp) (Some cid) = Inl e"
    by (cases "parseAndCheckCircuitId circuits (trim inp) (Some cid)") auto
  then show r: "\<exists>t. handleSaveEdit circuits inp cid = Inl t"
    by (simp add: handleSaveEdit_def)
  fix api :: "mutation \<Rightarrow> 's \<Rightarrow> 'e + 's" and store
  from r show "mutate api (handleSaveEdit circuits inp cid) store = store"
    by (auto simp: mutate_def)
next
  fix cable :: cable and circuits :: "circuit list" and inp m
  assume h: "pairwiseNonOverlapping (map circuitId circuits)
      \<and> handleAddCircuit cable circuits inp = Inr m"
  then obtain u where v: "parseAndCheckCircuitId circuits (trim inp) None = Inr u"
    and m: "m = CreateCircuit (id_cable cable) (trim inp)"
    by (auto simp: handleAddCircuit_def split: if_splits sum.splits)
  show "m = CreateCircuit (id_cable cable) (trim inp)" by (rule m)
  have "\<forall>x\<in>set (map circuitId circuits). \<not> circuitIdsOverlap x (trim inp)"
    using validation_no_overlap[OF v] by (auto simp: overlap_sym[of _ "trim inp"])
  with h show "pairwiseNonOverlapping (map circuitId circuits @ [trim inp])"
    by (simp add: pairwise_snoc)
next
  fix circuits :: "circuit list" and inp cid m
  assume h: "distinct (map id_circuit circuits) \<and> pairwiseNonOverlapping (map circuitId circuits)
      \<and> handleSaveEdit circuits inp cid = Inr m"
  then obtain u where v: "parseAndCheckCircuitId circuits (trim inp) (Some cid) = Inr u"
    and m: "m = UpdateCircuitId cid inp"
    by (auto simp: handleSaveEdit_def split: if_splits sum.splits)
  show "m = UpdateCircuitId cid inp" by (rule m)
  have "\<forall>c\<in>set circuits. id_circuit c \<noteq> cid \<longrightarrow> \<not> circuitIdsOverlap inp (circuitId c)"
    using validation_no_overlap[OF v] by (auto simp: overlap_trim)
  with h show "pairwiseNonOverlapping
           (map (\<lambda>c. if id_circuit c = cid then inp else circuitId c) circuits)"
    by (simp add: pairwise_update)
qed (code_simp+)

theorem overlap_rejected_before_allocation_witness:
  "exampleCircuit ''c1'' ''d1'' ''pon,9-20'' 1 12 \<in> set [exampleCircuit ''c1'' ''d1'' ''pon,9-20'' 1 12]
   \<and> circuitIdsOverlap ''pon,1-9 '' (circuitId (exampleCircuit ''c1'' ''d1'' ''pon,9-20'' 1 12))
   \<and> mutate (\<lambda>m s. (Inr (m # s) :: unit + mutation list))
        (handleAddCircuit (exampleCable ''d1'' ''Distribution'')
           [exampleCircuit ''c1'' ''d1'' ''pon,9-20'' 1 12] ''pon,1-9 '') [] = []
   \<and> distinct (map id_circuit [exampleCircuit ''c1'' ''d1'' ''pon,9-20'' 1 12,
         exampleCircuit ''c2'' ''d1'' ''pon,1-8'' 13 20])
   \<and> pairwiseNonOverlapping (map circuitId [exampleCircuit ''c1'' ''d1'' ''pon,9-20'' 1 12,
         exampleCircuit ''c2'' ''d1'' ''pon,1-8'' 13 20])
   \<and> handleSaveEdit [exampleCircuit ''c1'' ''d1'' ''pon,9-20'' 1 12,
         exampleCircuit ''c2'' ''d1'' ''pon,1-8'' 13 20] ''pon,2-8'' ''c2''
       = Inr (UpdateCircuitId ''c2'' ''pon,2-8'')
   \<and> pairwiseNonOverlapping
        (map (\<lambda>c. if id_circuit c = ''c2'' then ''pon,2-8'' else circuitId c)
           [exampleCircuit ''c1'' ''d1'' ''pon,9-20'' 1 12,
            exampleCircuit ''c2'' ''d1'' ''pon,1-8'' 13 20])"
proof -
  let ?c1 = "exampleCircuit ''c1'' ''d1'' ''pon,9-20'' 1 12"
  let ?c2 = "exampleCircuit ''c2'' ''d1'' ''pon,1-8'' 13 20"
  have m: "?c1 \<in> set [?c1]" by simp
  have o: "circuitIdsOverlap ''pon,1-9 '' (circuitId ?c1)" by code_simp
  note a = overlap_rejected_before_allocation[THEN conjunct1, THEN spec, THEN spec, THEN spec,
      THEN spec, THEN mp, OF conjI[OF m o], THEN conjunct2, THEN spec, THEN spec]
  have d: "distinct (map id_circuit [?c1, ?c2])" by (simp add: exampleCircuit_def)
  have p: "pairwiseNonOverlapping (map circuitId [?c1, ?c2])" by code_simp
  have e: "handleSaveEdit [?c1, ?c2] ''pon,2-8'' ''c2'' = Inr (UpdateCircuitId ''c2'' ''pon,2-8'')"
    by code_simp
  note b = overlap_rejected_before_allocation[THEN conjunct2, THEN conjunct2, THEN conjunct2,
      THEN conjunct1, THEN spec, THEN spec, THEN spec, THEN spec, THEN mp,
      OF conjI[OF d conjI[OF p e]], THEN conjunct2]
  show ?thesis using m o a d p e b by (intro conjI)
qed

section \<open>The position allocator\<close>





lemma positions_create:
  fixes cs :: "circuit list"
  assumes "map position cs = map int [0..<length cs]"
  shows "map position (cs @ [c\<lparr>position := int (length cs)\<rparr>])
           = map int [0..<length (cs @ [c\<lparr>position := int (length cs)\<rparr>])]"
  using assms by simp





















section \<open>Conflicts between feed pair assignments\<close>

lemma toggleSpliced_conflict:
  assumes "c \<in> set store" "feedPairsCollide cid fc s e c"
  shows "\<exists>c'. toggleSpliced cid (Some fc) (Some (Num s)) (Some (Num e)) store
              = Inl (FeedPairConflict c')
           \<and> c' \<in> set store \<and> feedPairsCollide cid fc s e c'"
proof (cases "find (feedPairsCollide cid fc s e) store")
  case None
  then show ?thesis using assms by (auto simp: find_None_iff)
next
  case (Some c')
  then have "c' \<in> set store" "feedPairsCollide cid fc s e c'"
    by (auto simp: find_Some_iff)
  then show ?thesis using Some by (simp add: toggleSpliced_def)
qed


text \<open>
  C4. When the handler has derived a feed pair range for a distribution circuit and sends
  it, and another circuit that references the same feed cable holds an assignment that
  intersects this range (start at most the end of the other, and the start of the other at
  most end), the store answers with the feed pair conflict that names such a circuit. The
  check comes after the range is derived and before anything is stored: the circuits, and
  with them the flag \<open>isSpliced\<close>, stay as they were. With \<open>pon,1-8\<close> of one
  distribution cable spliced to the feed pairs 1 to 8, the toggle of \<open>pon,8-12\<close> of
  another cable, which derives the feed pairs 8 to 12, is rejected.
\<close>

theorem feedPairConflict_rejected:
  "(\<forall>(cable :: cable) (allCables :: cable list) (store :: circuit list) (d :: circuit)
      newId cid fc s e (c :: circuit) s' e'.
      handleCheckboxChange cable allCables store d True
        = Inr (ToggleSpliced cid (Some fc) (Some (Num s)) (Some (Num e)))
      \<and> c \<in> set store \<and> id_circuit c \<noteq> cid \<and> feedCableId c = Some fc
      \<and> feedFiberStart c = Some s' \<and> feedFiberEnd c = Some e' \<and> s \<le> e' \<and> s' \<le> e \<longrightarrow>
      (\<exists>c'. storeApi newId (ToggleSpliced cid (Some fc) (Some (Num s)) (Some (Num e))) store
               = Inl (FeedPairConflict c')
            \<and> c' \<in> set store \<and> feedPairsCollide cid fc s e c')
      \<and> mutate (storeApi newId) (handleCheckboxChange cable allCables store d True) store
          = store)
   \<and> (\<forall>cid fc s e (c' :: circuit).
      feedPairsCollide cid fc s e c' \<longleftrightarrow>
        id_circuit c' \<noteq> cid \<and> feedCableId c' = Some fc
        \<and> (\<exists>s' e'. feedFiberStart c' = Some s' \<and> feedFiberEnd c' = Some e'
               \<and> s \<le> e' \<and> s' \<le> e))
   \<and> handleCheckboxChange (exampleCable ''d3'' ''Distribution'')
        [exampleCable ''f1'' ''Feed'', exampleCable ''d2'' ''Distribution'',
         exampleCable ''d3'' ''Distribution'']
        [exampleCircuit ''fc'' ''f1'' ''pon,1-12'' 1 12,
         (exampleCircuit ''d2c'' ''d2'' ''pon,1-8'' 1 8)\<lparr>isSpliced := 1,
            feedCableId := Some ''f1'', feedFiberStart := Some 1, feedFiberEnd := Some 8\<rparr>,
         exampleCircuit ''d3c'' ''d3'' ''pon,8-12'' 1 5]
        (exampleCircuit ''d3c'' ''d3'' ''pon,8-12'' 1 5) True
       = Inr (ToggleSpliced ''d3c'' (Some ''f1'') (Some (Num 8)) (Some (Num 12)))
   \<and> storeApi [] (ToggleSpliced ''d3c'' (Some ''f1'') (Some (Num 8)) (Some (Num 12)))
        [exampleCircuit ''fc'' ''f1'' ''pon,1-12'' 1 12,
         (exampleCircuit ''d2c'' ''d2'' ''pon,1-8'' 1 8)\<lparr>isSpliced := 1,
            feedCableId := Some ''f1'', feedFiberStart := Some 1, feedFiberEnd := Some 8\<rparr>,
         exampleCircuit ''d3c'' ''d3'' ''pon,8-12'' 1 5]
       = Inl (FeedPairConflict
           ((exampleCircuit ''d2c'' ''d2'' ''pon,1-8'' 1 8)\<lparr>isSpliced := 1,
              feedCableId := Some ''f1'', feedFiberStart := Some 1, feedFiberEnd := Some 8\<rparr>))"
proof (intro conjI allI impI)
  fix cable :: cable and allCables :: "cable list" and store :: "circuit list"
    and d :: circuit and newId cid fc s e and c :: circuit and s' e'
  assume h: "handleCheckboxChange cable allCables store d True
        = Inr (ToggleSpliced cid (Some fc) (Some (Num s)) (Some (Num e)))
      \<and> c \<in> set store \<and> id_circuit c \<noteq> cid \<and> feedCableId c = Some fc
      \<and> feedFiberStart c = Some s' \<and> feedFiberEnd c = Some e' \<and> s \<le> e' \<and> s' \<le> e"
  then have req: "handleCheckboxChange cable allCables store d True
        = Inr (ToggleSpliced cid (Some fc) (Some (Num s)) (Some (Num e)))"
    and c: "c \<in> set store" by blast+
  have col: "feedPairsCollide cid fc s e c" using h by (simp add: feedPairsCollide_def)
  from toggleSpliced_conflict[OF c col] obtain c' where
    r: "toggleSpliced cid (Some fc) (Some (Num s)) (Some (Num e)) store = Inl (FeedPairConflict c')"
    and c': "c' \<in> set store" "feedPairsCollide cid fc s e c'" by blast
  have api: "storeApi newId (ToggleSpliced cid (Some fc) (Some (Num s)) (Some (Num e))) store
      = Inl (FeedPairConflict c')" using r by (simp add: storeApi_def)
  then show "\<exists>c'. storeApi newId (ToggleSpliced cid (Some fc) (Some (Num s)) (Some (Num e))) store
               = Inl (FeedPairConflict c')
            \<and> c' \<in> set store \<and> feedPairsCollide cid fc s e c'"
    using c' by blast
  show "mutate (storeApi newId) (handleCheckboxChange cable allCables store d True) store = store"
    unfolding req by (simp add: mutate_def api)
next
  fix cid fc s e and c' :: circuit
  show "feedPairsCollide cid fc s e c' \<longleftrightarrow>
        id_circuit c' \<noteq> cid \<and> feedCableId c' = Some fc
        \<and> (\<exists>s' e'. feedFiberStart c' = Some s' \<and> feedFiberEnd c' = Some e'
               \<and> s \<le> e' \<and> s' \<le> e)"
    by (auto simp: feedPairsCollide_def split: option.splits)
qed (code_simp+)

theorem feedPairConflict_rejected_witness:
  "handleCheckboxChange (exampleCable ''d3'' ''Distribution'')
        [exampleCable ''f1'' ''Feed'', exampleCable ''d2'' ''Distribution'',
         exampleCable ''d3'' ''Distribution'']
        [exampleCircuit ''fc'' ''f1'' ''pon,1-12'' 1 12,
         (exampleCircuit ''d2c'' ''d2'' ''pon,1-8'' 1 8)\<lparr>isSpliced := 1,
            feedCableId := Some ''f1'', feedFiberStart := Some 1, feedFiberEnd := Some 8\<rparr>,
         exampleCircuit ''d3c'' ''d3'' ''pon,8-12'' 1 5]
        (exampleCircuit ''d3c'' ''d3'' ''pon,8-12'' 1 5) True
       = Inr (ToggleSpliced ''d3c'' (Some ''f1'') (Some (Num 8)) (Some (Num 12)))
   \<and> id_circuit ((exampleCircuit ''d2c'' ''d2'' ''pon,1-8'' 1 8)\<lparr>isSpliced := 1,
            feedCableId := Some ''f1'', feedFiberStart := Some 1, feedFiberEnd := Some 8\<rparr>)
        \<noteq> ''d3c''
   \<and> (8::int) \<le> 8 \<and> (1::int) \<le> 12
   \<and> mutate (storeApi [])
        (handleCheckboxChange (exampleCable ''d3'' ''Distribution'')
           [exampleCable ''f1'' ''Feed'', exampleCable ''d2'' ''Distribution'',
            exampleCable ''d3'' ''Distribution'']
           [exampleCircuit ''fc'' ''f1'' ''pon,1-12'' 1 12,
            (exampleCircuit ''d2c'' ''d2'' ''pon,1-8'' 1 8)\<lparr>isSpliced := 1,
               feedCableId := Some ''f1'', feedFiberStart := Some 1, feedFiberEnd := Some 8\<rparr>,
            exampleCircuit ''d3c'' ''d3'' ''pon,8-12'' 1 5]
           (exampleCircuit ''d3c'' ''d3'' ''pon,8-12'' 1 5) True)
        [exampleCircuit ''fc'' ''f1'' ''pon,1-12'' 1 12,
         (exampleCircuit ''d2c'' ''d2'' ''pon,1-8'' 1 8)\<lparr>isSpliced := 1,
            feedCableId := Some ''f1'', feedFiberStart := Some 1, feedFiberEnd := Some 8\<rparr>,
         exampleCircuit ''d3c'' ''d3'' ''pon,8-12'' 1 5]
      = [exampleCircuit ''fc'' ''f1'' ''pon,1-12'' 1 12,
         (exampleCircuit ''d2c'' ''d2'' ''pon,1-8'' 1 8)\<lparr>isSpliced := 1,
            feedCableId := Some ''f1'', feedFiberStart := Some 1, feedFiberEnd := Some 8\<rparr>,
         exampleCircuit ''d3c'' ''d3'' ''pon,8-12'' 1 5]"
proof -
  let ?cables = "[exampleCable ''f1'' ''Feed'', exampleCable ''d2'' ''Distribution'',
         exampleCable ''d3'' ''Distribution'']"
  let ?fc = "exampleCircuit ''fc'' ''f1'' ''pon,1-12'' 1 12"
  let ?d2 = "(exampleCircuit ''d2c'' ''d2'' ''pon,1-8'' 1 8)\<lparr>isSpliced := 1,
            feedCableId := Some ''f1'', feedFiberStart := Some 1, feedFiberEnd := Some 8\<rparr>"
  let ?d3 = "exampleCircuit ''d3c'' ''d3'' ''pon,8-12'' 1 5"
  have req: "handleCheckboxChange (exampleCable ''d3'' ''Distribution'') ?cables
      [?fc, ?d2, ?d3] ?d3 True
       = Inr (ToggleSpliced ''d3c'' (Some ''f1'') (Some (Num 8)) (Some (Num 12)))"
    by code_simp
  have m: "?d2 \<in> set [?fc, ?d2, ?d3]" by simp
  have i: "id_circuit ?d2 \<noteq> ''d3c''" by (simp add: exampleCircuit_def)
  have f: "feedCableId ?d2 = Some ''f1''" "feedFiberStart ?d2 = Some 1"
    "feedFiberEnd ?d2 = Some 8" by simp_all
  have a: "(8::int) \<le> 8" "(1::int) \<le> 12" by simp_all
  note r = feedPairConflict_rejected[THEN conjunct1, THEN spec, THEN spec, THEN spec, THEN spec,
      THEN spec, THEN spec, THEN spec, THEN spec, THEN spec, THEN spec, THEN spec, THEN spec,
      THEN mp, OF conjI[OF req conjI[OF m conjI[OF i conjI[OF f(1) conjI[OF f(2)
        conjI[OF f(3) conjI[OF a(1) a(2)]]]]]]], THEN conjunct2]
  show ?thesis using req i a r by (intro conjI)
qed

end
